theory Spec2Isabelle
  imports Main "HOL-Library.Multiset"
begin


section \<open>Shared vocabulary: errors, time, messages\<close>

text \<open>
  Go \<^verbatim>\<open>error\<close> values. \<open>Transport\<close> stands for an error handed back by an external
  client library (SQS, sarama, EventHub), identified by a tag; \<open>Errorf\<close> is
  \<^verbatim>\<open>fmt.Errorf\<close>/\<^verbatim>\<open>errors.Errorf\<close> with its text; \<open>Wrap\<close> is \<^verbatim>\<open>errors.Wrap(err, text)\<close>;
  \<open>Multi\<close> is a \<^verbatim>\<open>*multierror.Error\<close> with its list of causes. A nil error is \<open>None\<close>
  of \<open>err option\<close>.
\<close>

datatype err =
    Transport nat
  | Errorf string
  | Wrap err string
  | Multi "err list"

text \<open>
  \<^verbatim>\<open>multierror.Append(err, e)\<close> of hashicorp/go-multierror: a nil accumulator starts a
  new list, a multierror accumulator is extended, any other accumulator becomes the first
  cause; a multierror argument is flattened into its causes.
\<close>

fun multierror_causes :: "err \<Rightarrow> err list" where
  "multierror_causes (Multi es) = es"
| "multierror_causes e = [e]"

fun multierror_Append :: "err option \<Rightarrow> err \<Rightarrow> err option" where
  "multierror_Append None e = Some (Multi (multierror_causes e))"
| "multierror_Append (Some (Multi es)) e = Some (Multi (es @ multierror_causes e))"
| "multierror_Append (Some a) e = Some (Multi (a # multierror_causes e))"

text \<open>
  \<^verbatim>\<open>time.Time\<close> is modelled by its offset from the Unix epoch in nanoseconds (an
  unbounded \<open>int\<close>); \<^verbatim>\<open>time.Duration\<close> is an \<^verbatim>\<open>int64\<close> count of nanoseconds, kept
  as an \<open>int\<close> with Go's wrap-around and saturation written out.
\<close>

type_synonym time = int
type_synonym duration = int

definition minDuration :: duration where
  "minDuration = - (2 ^ 63)"

definition maxDuration :: duration where
  "maxDuration = 2 ^ 63 - 1"

definition wrap64 :: "int \<Rightarrow> int" where
  "wrap64 x = (x + 2 ^ 63) mod 2 ^ 64 - 2 ^ 63"

text \<open>\<^verbatim>\<open>t.Sub(u)\<close>: the difference, saturated at the largest and smallest Duration.\<close>

definition time_Sub :: "time \<Rightarrow> time \<Rightarrow> duration" where
  "time_Sub t u =
     (let d = t - u
      in if d < minDuration then minDuration
         else if maxDuration < d then maxDuration
         else d)"

text \<open>Go's integer division truncates towards zero.\<close>

definition go_div :: "int \<Rightarrow> int \<Rightarrow> int" where
  "go_div a b = sgn a * sgn b * (\<bar>a\<bar> div \<bar>b\<bar>)"

text \<open>
  \<^verbatim>\<open>models.Message\<close>. The struct itself is declared outside the files at hand; its
  fields are the ones the sources read and write: \<^verbatim>\<open>Data\<close>, \<^verbatim>\<open>PartitionKey\<close>,
  \<^verbatim>\<open>AckFunc\<close>, \<^verbatim>\<open>TimeCreated\<close>, \<^verbatim>\<open>TimePulled\<close>, and the error attached by
  \<^verbatim>\<open>SetError\<close>. An \<^verbatim>\<open>AckFunc\<close> is a Go closure whose only effect is outside the
  program (for SQS: deleting the message with a receipt handle); it is modelled by a token
  naming the callback, \<open>None\<close> for a nil \<^verbatim>\<open>AckFunc\<close>. Calling it appends the token to
  an acknowledgment log that the writers thread through.
\<close>

type_synonym ack = string

record message =
  Data :: "nat list"
  PartitionKey :: string
  AckFunc :: "ack option"
  TimeCreated :: time
  TimePulled :: time
  MsgError :: "err option"

text \<open>
  Modelled from the spec: \<^verbatim>\<open>Message.SetError\<close> of pkg/models is not among the sources;
  the data model gives a message "an optional attached error", which the call sets.
\<close>

definition SetError :: "message \<Rightarrow> err \<Rightarrow> message" where
  "SetError msg e = msg\<lparr>MsgError := Some e\<rparr>"

section \<open>internal/models: NewWriteResultWithTime\<close>

record TargetWriteResult =
  Sent :: int
  Failed :: int
  MaxProcLatency :: duration
  MinProcLatency :: duration
  AvgProcLatency :: duration
  MaxMsgLatency :: duration
  MinMsgLatency :: duration
  AvgMsgLatency :: duration

text \<open>
  Modelled from the spec: \<^verbatim>\<open>common.GetAverageFromDuration\<close> is not among the sources.
  The result is the "Avg" latency of the data model: the sum divided by the number of
  messages, as a Duration (an integer division), and zero when no message contributed.
\<close>

definition GetAverageFromDuration :: "duration \<Rightarrow> int \<Rightarrow> duration" where
  "GetAverageFromDuration sumv totalv = (if 0 < totalv then go_div sumv totalv else 0)"

text \<open>
  The body of the \<^verbatim>\<open>for _, msg := range messages\<close> loop: the running result and the
  two running sums (\<^verbatim>\<open>+=\<close> on an \<^verbatim>\<open>int64\<close> wraps around).
\<close>

definition latency_step ::
  "time \<Rightarrow> message \<Rightarrow> TargetWriteResult \<times> duration \<times> duration
     \<Rightarrow> TargetWriteResult \<times> duration \<times> duration" where
  "latency_step timeOfWrite msg acc =
     (case acc of (r, sumProcLatency, sumMessageLatency) \<Rightarrow>
       let procLatency = time_Sub timeOfWrite (TimePulled msg);
           r1 = (if MaxProcLatency r < procLatency
                 then r\<lparr>MaxProcLatency := procLatency\<rparr> else r);
           r2 = (if procLatency < MinProcLatency r1 \<or> MinProcLatency r1 = 0
                 then r1\<lparr>MinProcLatency := procLatency\<rparr> else r1);
           messageLatency = time_Sub timeOfWrite (TimeCreated msg);
           r3 = (if MaxMsgLatency r2 < messageLatency
                 then r2\<lparr>MaxMsgLatency := messageLatency\<rparr> else r2);
           r4 = (if messageLatency < MinMsgLatency r3 \<or> MinMsgLatency r3 = 0
                 then r3\<lparr>MinMsgLatency := messageLatency\<rparr> else r3)
       in (r4, wrap64 (sumProcLatency + procLatency),
               wrap64 (sumMessageLatency + messageLatency)))"

fun latency_loop ::
  "time \<Rightarrow> message list \<Rightarrow> TargetWriteResult \<times> duration \<times> duration
     \<Rightarrow> TargetWriteResult \<times> duration \<times> duration" where
  "latency_loop timeOfWrite [] acc = acc"
| "latency_loop timeOfWrite (msg # rest) acc =
     latency_loop timeOfWrite rest (latency_step timeOfWrite msg acc)"

definition NewWriteResultWithTime ::
  "int \<Rightarrow> int \<Rightarrow> time \<Rightarrow> message list \<Rightarrow> TargetWriteResult" where
  "NewWriteResultWithTime sent failed timeOfWrite messages =
     (let r0 = \<lparr>Sent = sent, Failed = failed,
                MaxProcLatency = 0, MinProcLatency = 0, AvgProcLatency = 0,
                MaxMsgLatency = 0, MinMsgLatency = 0, AvgMsgLatency = 0\<rparr>;
          messagesLen = int (length messages)
      in case latency_loop timeOfWrite messages (r0, 0, 0) of
           (r, sumProcLatency, sumMessageLatency) \<Rightarrow>
             if 0 < messagesLen
             then r\<lparr>AvgProcLatency := GetAverageFromDuration sumProcLatency messagesLen,
                    AvgMsgLatency := GetAverageFromDuration sumMessageLatency messagesLen\<rparr>
             else r)"

text \<open>The latencies the aggregates are taken over.\<close>

definition procLatencies :: "time \<Rightarrow> message list \<Rightarrow> duration list" where
  "procLatencies timeOfWrite messages =
     map (\<lambda>msg. time_Sub timeOfWrite (TimePulled msg)) messages"

definition msgLatencies :: "time \<Rightarrow> message list \<Rightarrow> duration list" where
  "msgLatencies timeOfWrite messages =
     map (\<lambda>msg. time_Sub timeOfWrite (TimeCreated msg)) messages"

text \<open>A message with a key, a time of creation and a time of pull, and nothing else.\<close>

definition mk_message :: "string \<Rightarrow> time \<Rightarrow> time \<Rightarrow> message" where
  "mk_message key created pulled =
     \<lparr>Data = [], PartitionKey = key, AckFunc = None,
      TimeCreated = created, TimePulled = pulled, MsgError = None\<rparr>"

section \<open>pkg/models: the delivery result, the oversize filter and the chunker\<close>

text \<open>
  Modelled from the spec: pkg/models (\<^verbatim>\<open>TargetWriteResult\<close> with its constructor
  \<^verbatim>\<open>NewTargetWriteResult\<close> and its \<^verbatim>\<open>Append\<close>, \<^verbatim>\<open>FilterOversizedMessages\<close>,
  \<^verbatim>\<open>GetChunkedMessages\<close>) is not among the sources; only its callers in pkg/target
  are. The delivery result carries the counts \<open>{Sent, Failed, Oversized, Invalid}\<close>: the
  callers read \<^verbatim>\<open>SentCount\<close> and pass four message lists, so the model keeps the two
  counters and the four lists, the Oversized and Invalid counts being the lengths of their
  lists. The latency aggregates of the result play no part in the writers and are left out.
\<close>

record pkg_TargetWriteResult =
  SentCount :: int
  FailedCount :: int
  SentMsgs :: "message list"
  FailedMsgs :: "message list"
  Oversized :: "message list"
  Invalid :: "message list"

definition NewTargetWriteResult ::
  "message list \<Rightarrow> message list \<Rightarrow> message list \<Rightarrow> message list \<Rightarrow> pkg_TargetWriteResult" where
  "NewTargetWriteResult sent failed oversized invalid =
     \<lparr>SentCount = int (length sent), FailedCount = int (length failed),
      SentMsgs = sent, FailedMsgs = failed, Oversized = oversized, Invalid = invalid\<rparr>"

text \<open>Modelled from the spec: the merge rule "counts sum"; the message lists are joined.\<close>

definition Append :: "pkg_TargetWriteResult \<Rightarrow> pkg_TargetWriteResult \<Rightarrow> pkg_TargetWriteResult" where
  "Append wr nwr =
     \<lparr>SentCount = SentCount wr + SentCount nwr,
      FailedCount = FailedCount wr + FailedCount nwr,
      SentMsgs = SentMsgs wr @ SentMsgs nwr,
      FailedMsgs = FailedMsgs wr @ FailedMsgs nwr,
      Oversized = Oversized wr @ Oversized nwr,
      Invalid = Invalid wr @ Invalid nwr\<rparr>"

text \<open>The four counts of a delivery result, added up.\<close>

definition count_sum :: "pkg_TargetWriteResult \<Rightarrow> int" where
  "count_sum r =
     SentCount r + FailedCount r + int (length (Oversized r)) + int (length (Invalid r))"

definition msg_size :: "message \<Rightarrow> int" where
  "msg_size msg = int (length (Data msg))"

text \<open>
  Modelled from the spec: "a message whose size exceeds \<open>maxMessageBytes\<close> is routed to
  oversized ... a message whose size equals \<open>maxMessageBytes\<close> exactly is NOT oversized".
  The pair is (safe messages, oversized messages), both in input order.
\<close>

definition FilterOversizedMessages ::
  "message list \<Rightarrow> int \<Rightarrow> message list \<times> message list" where
  "FilterOversizedMessages messages maxMessageBytes =
     (filter (\<lambda>msg. \<not> maxMessageBytes < msg_size msg) messages,
      filter (\<lambda>msg. maxMessageBytes < msg_size msg) messages)"

text \<open>
  Modelled from the spec (section 4.1): oversized messages are set aside; the others are
  packed greedily in input order, "a chunk closes and a new one opens before adding a
  message would push it past \<open>maxCount\<close> or \<open>maxChunkBytes\<close>", and "no chunk is ever
  empty" (so an empty buffer always takes the message). The loop state is the open chunk
  with its byte size, the closed chunks and the oversized messages.
\<close>

fun chunk_loop ::
  "int \<Rightarrow> int \<Rightarrow> int \<Rightarrow> message list \<Rightarrow> message list \<Rightarrow> int
     \<Rightarrow> message list list \<Rightarrow> message list \<Rightarrow> message list list \<times> message list" where
  "chunk_loop maxCount maxMessageBytes maxChunkBytes [] buf bufBytes chunks oversized =
     (if buf \<noteq> [] then chunks @ [buf] else chunks, oversized)"
| "chunk_loop maxCount maxMessageBytes maxChunkBytes (msg # rest) buf bufBytes chunks oversized =
     (if maxMessageBytes < msg_size msg
      then chunk_loop maxCount maxMessageBytes maxChunkBytes rest buf bufBytes chunks
             (oversized @ [msg])
      else if buf \<noteq> [] \<and>
              (maxCount < int (length buf) + 1 \<or> maxChunkBytes < bufBytes + msg_size msg)
      then chunk_loop maxCount maxMessageBytes maxChunkBytes rest [msg] (msg_size msg)
             (chunks @ [buf]) oversized
      else chunk_loop maxCount maxMessageBytes maxChunkBytes rest (buf @ [msg])
             (bufBytes + msg_size msg) chunks oversized)"

definition GetChunkedMessages ::
  "message list \<Rightarrow> int \<Rightarrow> int \<Rightarrow> int \<Rightarrow> message list list \<times> message list" where
  "GetChunkedMessages messages maxCount maxMessageBytes maxChunkBytes =
     chunk_loop maxCount maxMessageBytes maxChunkBytes messages [] 0 [] []"

section \<open>pkg/target/kafka.go: KafkaTarget.Write\<close>

text \<open>
  \<^verbatim>\<open>sarama.ProducerMessage\<close>: topic, key, value and the \<^verbatim>\<open>Metadata\<close> field of type
  \<^verbatim>\<open>interface{}\<close>. A value of that type is nil, a \<^verbatim>\<open>*models.Message\<close>, or a value
  of some other dynamic type; the type assertion \<^verbatim>\<open>.(*models.Message)\<close> panics on
  the first and the last.
\<close>

datatype metadata = MetaNil | MetaMessage message | MetaOther string

record ProducerMessage =
  Topic :: string
  Key :: string
  Value :: "nat list"
  Metadata :: metadata

record SaramaResult =
  Msg :: ProducerMessage
  Err :: "err option"

text \<open>
  The target. A producer field is \<open>None\<close> or \<open>False\<close> for Go's nil. The synchronous
  producer is given by what its \<^verbatim>\<open>SendMessage\<close> returns for the k-th call of a
  \<^verbatim>\<open>Write\<close> (nil or an error). The asynchronous producer only takes submissions; its
  outcomes come back on \<^verbatim>\<open>kt.asyncResults\<close>, which \<^verbatim>\<open>Write\<close> receives as the list
  of results that arrive on the channel while it drains it.
\<close>

record KafkaTarget =
  syncProducer :: "(nat \<Rightarrow> ProducerMessage \<Rightarrow> err option) option"
  asyncProducer :: bool
  topicName :: string
  brokers :: string
  messageByteLimit :: int

text \<open>How a call ends: it returns, it panics, or it blocks for ever on a channel.\<close>

datatype 'a outcome = Returns 'a | Panics | Blocks

definition MaximumAllowedMessageSizeBytes :: "KafkaTarget \<Rightarrow> int" where
  "MaximumAllowedMessageSizeBytes kt = messageByteLimit kt"

text \<open>The call \<^verbatim>\<open>if msg.AckFunc != nil { msg.AckFunc() }\<close>: the callbacks it invokes.\<close>

definition invoke_ack :: "message \<Rightarrow> ack list" where
  "invoke_ack msg = (case AckFunc msg of None \<Rightarrow> [] | Some a \<Rightarrow> [a])"

text \<open>
  The working state of \<^verbatim>\<open>Write\<close>: \<^verbatim>\<open>sent\<close>, \<^verbatim>\<open>failed\<close>, \<^verbatim>\<open>errResult\<close>, and
  the callbacks invoked so far, oldest first.
\<close>

type_synonym write_acc = "message list \<times> message list \<times> err option \<times> ack list"

definition async_input :: "KafkaTarget \<Rightarrow> message \<Rightarrow> ProducerMessage" where
  "async_input kt msg =
     \<lparr>Topic = topicName kt, Key = PartitionKey msg, Value = Data msg,
      Metadata = MetaMessage msg\<rparr>"

definition sync_input :: "KafkaTarget \<Rightarrow> message \<Rightarrow> ProducerMessage" where
  "sync_input kt msg =
     \<lparr>Topic = topicName kt, Key = PartitionKey msg, Value = Data msg,
      Metadata = MetaNil\<rparr>"

text \<open>
  The loop \<^verbatim>\<open>for i := 0; i < len(safeMessages); i++\<close> of the asynchronous branch: each
  round receives one result from \<^verbatim>\<open>kt.asyncResults\<close> and blocks while there is none.
\<close>

fun async_drain ::
  "nat \<Rightarrow> SaramaResult list \<Rightarrow> write_acc \<Rightarrow> (write_acc \<times> SaramaResult list) outcome" where
  "async_drain 0 stream acc = Returns (acc, stream)"
| "async_drain (Suc n) [] acc = Blocks"
| "async_drain (Suc n) (result # stream) (sent, failed, errResult, acks) =
     (case Err result of
        Some e \<Rightarrow>
          (case Metadata (Msg result) of
             MetaMessage originalMessage \<Rightarrow>
               async_drain n stream
                 (sent, failed @ [SetError originalMessage e],
                  multierror_Append errResult e, acks)
           | _ \<Rightarrow> Panics)
      | None \<Rightarrow>
          (case Metadata (Msg result) of
             MetaMessage originalMessage \<Rightarrow>
               async_drain n stream
                 (sent @ [originalMessage], failed, errResult,
                  acks @ invoke_ack originalMessage)
           | _ \<Rightarrow> Panics))"

text \<open>The loop \<^verbatim>\<open>for _, msg := range safeMessages\<close> of the synchronous branch.\<close>

fun sync_loop ::
  "(nat \<Rightarrow> ProducerMessage \<Rightarrow> err option) \<Rightarrow> KafkaTarget \<Rightarrow> nat \<Rightarrow> message list
     \<Rightarrow> write_acc \<Rightarrow> write_acc" where
  "sync_loop send kt k [] acc = acc"
| "sync_loop send kt k (msg # rest) (sent, failed, errResult, acks) =
     (case send k (sync_input kt msg) of
        Some e \<Rightarrow>
          sync_loop send kt (Suc k) rest
            (sent, failed @ [SetError msg e], multierror_Append errResult e, acks)
      | None \<Rightarrow>
          sync_loop send kt (Suc k) rest
            (sent @ [msg], failed, errResult, acks @ invoke_ack msg))"

text \<open>
  The end of \<^verbatim>\<open>Write\<close>: the accumulated error is wrapped when it is not nil, and the
  result is built from the three lists. The value returned is the result, the error, the
  callbacks the call invoked in the order of invocation, and what is left on
  \<^verbatim>\<open>kt.asyncResults\<close>.
\<close>

type_synonym kafka_return =
  "pkg_TargetWriteResult \<times> err option \<times> ack list \<times> SaramaResult list"

definition kafka_finish ::
  "KafkaTarget \<Rightarrow> message list \<Rightarrow> write_acc \<Rightarrow> SaramaResult list \<Rightarrow> kafka_return" where
  "kafka_finish kt oversized acc stream =
     (case acc of (sent, failed, errResult, acks) \<Rightarrow>
        (NewTargetWriteResult sent failed oversized [],
         map_option
           (\<lambda>e. Wrap e (''Error writing messages to Kafka topic: '' @ topicName kt)) errResult,
         acks, stream))"

definition KafkaTarget_Write ::
  "KafkaTarget \<Rightarrow> SaramaResult list \<Rightarrow> message list \<Rightarrow> kafka_return outcome" where
  "KafkaTarget_Write kt asyncResults messages =
     (case FilterOversizedMessages messages (MaximumAllowedMessageSizeBytes kt) of
        (safeMessages, oversized) \<Rightarrow>
          if asyncProducer kt
          then (case async_drain (length safeMessages) asyncResults ([], [], None, []) of
                  Returns (acc, stream) \<Rightarrow> Returns (kafka_finish kt oversized acc stream)
                | Panics \<Rightarrow> Panics
                | Blocks \<Rightarrow> Blocks)
          else (case syncProducer kt of
                  Some send \<Rightarrow>
                    Returns (kafka_finish kt oversized
                               (sync_loop send kt 0 safeMessages ([], [], None, []))
                               asyncResults)
                | None \<Rightarrow>
                    Returns (kafka_finish kt oversized
                               ([], [],
                                multierror_Append None
                                  (Errorf ''no producer has been configured''),
                                [])
                               asyncResults)))"

text \<open>What the asynchronous branch puts on the producer's input, in order.\<close>

definition async_submitted :: "KafkaTarget \<Rightarrow> message list \<Rightarrow> ProducerMessage list" where
  "async_submitted kt messages =
     map (async_input kt)
       (fst (FilterOversizedMessages messages (MaximumAllowedMessageSizeBytes kt)))"

section \<open>pkg/target/eventhub.go: EventHubTarget.Write and process\<close>

text \<open>
  The target. \<^verbatim>\<open>client.SendBatch\<close> is given by what it returns for the k-th chunk of a
  \<^verbatim>\<open>Write\<close>: nil, or one error for the whole batch.
\<close>

record EventHubTarget =
  client :: "nat \<Rightarrow> message list \<Rightarrow> err option"
  eventHubNamespace :: string
  eventHubName :: string
  eh_messageByteLimit :: int
  chunkByteLimit :: int
  chunkMessageLimit :: int
  contextTimeoutInSeconds :: int
  batchByteLimit :: int

definition EventHubTarget_process ::
  "EventHubTarget \<Rightarrow> nat \<Rightarrow> message list
     \<Rightarrow> pkg_TargetWriteResult \<times> err option \<times> ack list" where
  "EventHubTarget_process eht k messages =
     (case client eht k messages of
        Some e \<Rightarrow>
          (NewTargetWriteResult [] messages [] [],
           Some (Wrap e ''Failed to send message batch to EventHub''), [])
      | None \<Rightarrow>
          (NewTargetWriteResult messages [] [] [], None,
           concat (map invoke_ack messages)))"

text \<open>
  The loop \<^verbatim>\<open>for _, chunk := range chunks\<close> of \<^verbatim>\<open>Write\<close>, on the running result,
  the running error and the callbacks invoked so far.
\<close>

fun eventhub_loop ::
  "EventHubTarget \<Rightarrow> nat \<Rightarrow> message list list
     \<Rightarrow> pkg_TargetWriteResult \<times> err option \<times> ack list
     \<Rightarrow> pkg_TargetWriteResult \<times> err option \<times> ack list" where
  "eventhub_loop eht k [] acc = acc"
| "eventhub_loop eht k (chunk # rest) (writeResult, errResult, acks) =
     (case EventHubTarget_process eht k chunk of
        (res, e, acks') \<Rightarrow>
          eventhub_loop eht (Suc k) rest
            (Append writeResult res,
             (case e of None \<Rightarrow> errResult | Some e' \<Rightarrow> multierror_Append errResult e'),
             acks @ acks'))"

definition EventHubTarget_Write ::
  "EventHubTarget \<Rightarrow> message list \<Rightarrow> pkg_TargetWriteResult \<times> err option \<times> ack list" where
  "EventHubTarget_Write eht messages =
     (case GetChunkedMessages messages (chunkMessageLimit eht) (eh_messageByteLimit eht)
             (chunkByteLimit eht) of
        (chunks, oversized) \<Rightarrow>
          (case eventhub_loop eht 0 chunks
                  (\<lparr>SentCount = 0, FailedCount = 0, SentMsgs = [], FailedMsgs = [],
                    Oversized = oversized, Invalid = []\<rparr>, None, []) of
             (writeResult, errResult, acks) \<Rightarrow>
               (writeResult,
                map_option (\<lambda>e. Wrap e ''Error writing messages to EventHub'') errResult,
                acks)))"

section \<open>pkg/target/kafka.go: NewKafkaTarget\<close>

record KafkaConfig =
  Brokers :: string
  TopicName :: string
  TargetVersion :: string
  MaxRetries :: int
  ByteLimit :: int
  Compress :: bool
  WaitForAll :: bool
  Idempotent :: bool
  EnableSASL :: bool
  SASLUsername :: string
  SASLPassword :: string
  SASLAlgorithm :: string
  CertFile :: string
  KeyFile :: string
  CaFile :: string
  SkipVerifyTls :: bool
  ForceSync :: bool
  FlushFrequency :: int
  FlushMessages :: int
  FlushBytes :: int

text \<open>
  What the constructor takes from outside the repository: the sarama library (its version
  parser, the table \<^verbatim>\<open>sarama.SupportedVersions\<close>, \<^verbatim>\<open>sarama.DefaultVersion\<close>, the
  two producer constructors) and the file system behind \<^verbatim>\<open>tls.LoadX509KeyPair\<close> and
  \<^verbatim>\<open>ioutil.ReadFile\<close>. A \<^verbatim>\<open>sarama.KafkaVersion\<close> is its list of version numbers.
  A producer constructor answers with the producer (nil on failure) and the error.
\<close>

type_synonym KafkaVersion = "nat list"

record kafka_env =
  ParseKafkaVersion :: "string \<Rightarrow> err + KafkaVersion"
  SupportedVersions :: "KafkaVersion list"
  DefaultVersion :: KafkaVersion
  LoadX509KeyPair :: "string \<Rightarrow> string \<Rightarrow> err option"
  ReadFile :: "string \<Rightarrow> err option"
  NewAsyncProducer :: "string list \<Rightarrow> bool \<times> err option"
  NewSyncProducer ::
    "string list \<Rightarrow> (nat \<Rightarrow> ProducerMessage \<Rightarrow> err option) option \<times> err option"

text \<open>
  The loop \<^verbatim>\<open>for _, version := range sarama.SupportedVersions\<close> of
  \<^verbatim>\<open>getKafkaVersion\<close>: whether it sets \<^verbatim>\<open>supportedVersion\<close>.
\<close>

fun supportedVersion_loop :: "KafkaVersion list \<Rightarrow> KafkaVersion \<Rightarrow> bool" where
  "supportedVersion_loop [] parsedVersion = False"
| "supportedVersion_loop (version # rest) parsedVersion =
     (if version = parsedVersion then True else supportedVersion_loop rest parsedVersion)"

text \<open>The text of the "unsupported version" error is kept without the version in it.\<close>

definition getKafkaVersion :: "kafka_env \<Rightarrow> string \<Rightarrow> KafkaVersion \<times> err option" where
  "getKafkaVersion env targetVersion =
     (if targetVersion \<noteq> []
      then (case ParseKafkaVersion env targetVersion of
              Inl e \<Rightarrow> (DefaultVersion env, Some e)
            | Inr parsedVersion \<Rightarrow>
                if supportedVersion_loop (SupportedVersions env) parsedVersion
                then (parsedVersion, None)
                else (DefaultVersion env,
                      Some (Errorf ''unsupported version. select older, compatible version instead'')))
      else (DefaultVersion env, None))"

text \<open>\<^verbatim>\<open>createTlsConfiguration\<close>: whether a TLS configuration came back, and the error.\<close>

definition createTlsConfiguration ::
  "kafka_env \<Rightarrow> string \<Rightarrow> string \<Rightarrow> string \<Rightarrow> bool \<Rightarrow> bool \<times> err option" where
  "createTlsConfiguration env certFile keyFile caFile skipVerify =
     (if certFile = [] \<or> keyFile = [] then (False, None)
      else case LoadX509KeyPair env certFile keyFile of
             Some e \<Rightarrow> (False, Some e)
           | None \<Rightarrow>
               (case ReadFile env caFile of
                  Some e \<Rightarrow> (False, Some e)
                | None \<Rightarrow> (True, None)))"

text \<open>\<^verbatim>\<open>strings.Split(s, sep)\<close> for a separator of one character.\<close>

fun Split :: "string \<Rightarrow> char \<Rightarrow> string list" where
  "Split [] sep = [[]]"
| "Split (c # cs) sep =
     (if c = sep then [] # Split cs sep
      else case Split cs sep of
             w # ws \<Rightarrow> (c # w) # ws
           | [] \<Rightarrow> [[c]])"

datatype producer_kind = AsyncKind | SyncKind

text \<open>
  \<^verbatim>\<open>NewKafkaTarget\<close> returns the target (\<open>None\<close> for nil) and the error; the third
  component lists the producer constructors it has called. The sarama configuration it
  fills in is handed to those constructors only, so of that part the model keeps the
  control flow: the version check, the SASL algorithm check and the TLS set-up, each of
  which can end the construction. The two goroutines that forward the asynchronous
  producer's outcomes to \<^verbatim>\<open>asyncResults\<close> are the stream \<open>KafkaTarget_Write\<close> receives.
\<close>

definition NewKafkaTarget ::
  "kafka_env \<Rightarrow> KafkaConfig \<Rightarrow> KafkaTarget option \<times> err option \<times> producer_kind list" where
  "NewKafkaTarget env cfg =
     (case getKafkaVersion env (TargetVersion cfg) of
        (kafkaVersion, Some e) \<Rightarrow> (None, Some e, [])
      | (kafkaVersion, None) \<Rightarrow>
          if EnableSASL cfg \<and> SASLAlgorithm cfg \<noteq> ''sha512'' \<and> SASLAlgorithm cfg \<noteq> ''sha256''
               \<and> SASLAlgorithm cfg \<noteq> ''plaintext''
          then (None,
                Some (Errorf (''invalid SHA algorithm \"'' @ SASLAlgorithm cfg
                                @ ''\": can be either \"sha256\" or \"sha512\"'')),
                [])
          else (case createTlsConfiguration env (CertFile cfg) (KeyFile cfg) (CaFile cfg)
                       (SkipVerifyTls cfg) of
                  (tlsConfig, Some e) \<Rightarrow> (None, Some e, [])
                | (tlsConfig, None) \<Rightarrow>
                    if \<not> ForceSync cfg
                    then (case NewAsyncProducer env (Split (Brokers cfg) CHR '','') of
                            (producer, producerError) \<Rightarrow>
                              (Some \<lparr>syncProducer = None, asyncProducer = producer,
                                     topicName = TopicName cfg, brokers = Brokers cfg,
                                     messageByteLimit = ByteLimit cfg\<rparr>,
                               producerError, [AsyncKind]))
                    else (case NewSyncProducer env (Split (Brokers cfg) CHR '','') of
                            (producer, producerError) \<Rightarrow>
                              (Some \<lparr>syncProducer = producer, asyncProducer = False,
                                     topicName = TopicName cfg, brokers = Brokers cfg,
                                     messageByteLimit = ByteLimit cfg\<rparr>,
                               producerError, [SyncKind]))))"

text \<open>A target version the construction does not accept: it does not parse, or it parses
  to a version that is not in the table of supported versions.\<close>

definition unsupported_version :: "kafka_env \<Rightarrow> string \<Rightarrow> bool" where
  "unsupported_version env targetVersion =
     (case ParseKafkaVersion env targetVersion of
        Inl e \<Rightarrow> True
      | Inr v \<Rightarrow> v \<notin> set (SupportedVersions env))"

section \<open>The SQS source: process\<close>

text \<open>
  \<^verbatim>\<open>strconv.ParseInt(s, 10, 64)\<close>: an optional sign, then one or more decimal digits,
  and a value that fits an \<^verbatim>\<open>int64\<close>; anything else is an error (\<open>None\<close>).
\<close>

definition digit_value :: "char \<Rightarrow> int option" where
  "digit_value c =
     (let n = (of_char c :: int) in if 48 \<le> n \<and> n \<le> 57 then Some (n - 48) else None)"

fun parse_digits :: "string \<Rightarrow> int \<Rightarrow> int option" where
  "parse_digits [] acc = Some acc"
| "parse_digits (c # cs) acc =
     (case digit_value c of
        None \<Rightarrow> None
      | Some d \<Rightarrow> parse_digits cs (10 * acc + d))"

definition ParseInt :: "string \<Rightarrow> int option" where
  "ParseInt s =
     (case s of
        [] \<Rightarrow> None
      | c # cs \<Rightarrow>
          let neg = (c = CHR ''-'');
              digits = (if c = CHR ''+'' \<or> c = CHR ''-'' then cs else s)
          in if digits = [] then None
             else case parse_digits digits 0 of
                    None \<Rightarrow> None
                  | Some un \<Rightarrow>
                      if \<not> neg \<and> 2 ^ 63 \<le> un then None
                      else if neg \<and> 2 ^ 63 < un then None
                      else Some (if neg then - un else un))"

text \<open>
  \<^verbatim>\<open>sqs.Message\<close>, as far as \<^verbatim>\<open>process\<close> reads it. The SDK hands the body, the
  receipt handle and the attribute values over as pointers; they are taken to be set, as
  they are in a message received from the queue.
\<close>

record sqs_Message =
  Body :: "nat list"
  ReceiptHandle :: string
  Attributes :: "string \<rightharpoonup> string"

definition SentTimestamp :: string where
  "SentTimestamp = ''SentTimestamp''"

text \<open>
  The body of \<^verbatim>\<open>for _, msg := range msgRes.Messages\<close>: the message built from one
  SQS message, given the time of the pull and the fresh UUID. The acknowledgment callback
  deletes the message with this receipt handle, which names it. The product
  \<^verbatim>\<open>timeCreatedMillis*int64(time.Millisecond)\<close> wraps around as an \<^verbatim>\<open>int64\<close>.
\<close>

definition build_message :: "time \<Rightarrow> string \<Rightarrow> sqs_Message \<Rightarrow> message" where
  "build_message timePulled uuid msg =
     (let timeCreated =
            (case Attributes msg SentTimestamp of
               Some timeCreatedStr \<Rightarrow>
                 (case ParseInt timeCreatedStr of
                    None \<Rightarrow> timePulled
                  | Some timeCreatedMillis \<Rightarrow> wrap64 (timeCreatedMillis * 1000000))
             | None \<Rightarrow> timePulled)
      in \<lparr>Data = Body msg, PartitionKey = uuid, AckFunc = Some (ReceiptHandle msg),
          TimeCreated = timeCreated, TimePulled = timePulled, MsgError = None\<rparr>)"

fun build_messages :: "time \<Rightarrow> (nat \<Rightarrow> string) \<Rightarrow> nat \<Rightarrow> sqs_Message list \<Rightarrow> message list" where
  "build_messages timePulled uuids i [] = []"
| "build_messages timePulled uuids i (msg # rest) =
     build_message timePulled (uuids i) msg # build_messages timePulled uuids (Suc i) rest"

text \<open>
  \<^verbatim>\<open>process\<close>, given what \<^verbatim>\<open>ReceiveMessage\<close> answered, the clock, the UUIDs and
  \<^verbatim>\<open>sf.WriteToTarget\<close>. It returns the error of the source line \<^verbatim>\<open>return\<close>, the
  batch it forwarded to \<^verbatim>\<open>WriteToTarget\<close> (if it got that far), and the errors it only
  logged.
\<close>

definition process ::
  "(err + sqs_Message list) \<Rightarrow> time \<Rightarrow> (nat \<Rightarrow> string) \<Rightarrow> (message list \<Rightarrow> err option)
     \<Rightarrow> err option \<times> message list option \<times> err list" where
  "process msgRes timePulled uuids WriteToTarget =
     (case msgRes of
        Inl e \<Rightarrow> (Some (Wrap e ''Failed to get message from SQS queue''), None, [])
      | Inr sqsMessages \<Rightarrow>
          (let messages = build_messages timePulled uuids 0 sqsMessages
           in (case WriteToTarget messages of
                 Some e \<Rightarrow> (None, Some messages, [e])
               | None \<Rightarrow> (None, Some messages, []))))"

section \<open>The SQS source: Read and Stop as a transition system\<close>

text \<open>
  \<^verbatim>\<open>Read\<close>, its worker goroutines and the callers of \<^verbatim>\<open>Stop\<close> run concurrently and
  meet at three channels. The model is a transition system: a state holding the control
  point of each goroutine and the content of each channel, and one transition per
  statement that touches a channel or the wait group. Go's channel rules decide when a
  transition is enabled:
  \<^item> \<^verbatim>\<open>exitSignal\<close> is unbuffered: a send completes only together with a receive, and
    the only receive is the first case of the \<^verbatim>\<open>select\<close> in \<^verbatim>\<open>Read\<close>;
  \<^item> \<^verbatim>\<open>processErrorSignal\<close> and \<^verbatim>\<open>throttle\<close> are buffered with capacity
    \<^verbatim>\<open>concurrentWrites\<close>: a send is enabled while the buffer is not full, a receive
    while it is not empty;
  \<^item> a \<^verbatim>\<open>select\<close> with a \<^verbatim>\<open>default\<close> takes one of its ready cases, and the default
    only when none is ready;
  \<^item> \<^verbatim>\<open>wg.Wait()\<close> is enabled when every launched goroutine has called \<^verbatim>\<open>wg.Done()\<close>.
  The scheduler is the list of actions it picks. \<^verbatim>\<open>concurrentWrites\<close> is a natural
  number (\<^verbatim>\<open>make\<close> panics on a negative capacity).
\<close>

text \<open>The outside world of the source: the queue, the clock, the UUIDs and the target
  behind \<^verbatim>\<open>sf.WriteToTarget\<close>, each answering by the number of the call.\<close>

record sqs_env =
  GetQueueUrl :: "err option"
  ReceiveMessage :: "nat \<Rightarrow> err + sqs_Message list"
  timeNow :: "nat \<Rightarrow> time"
  uuidNewV4 :: "nat \<Rightarrow> nat \<Rightarrow> string"
  WriteToTarget :: "nat \<Rightarrow> message list \<Rightarrow> err option"

text \<open>Where the goroutine running \<^verbatim>\<open>Read\<close> stands.\<close>

datatype read_pc =
    NotStarted
  | AtSelect
  | AtThrottle
  | AtGo
  | AtWait
  | Returned "err option"

text \<open>Where a worker goroutine stands: about to call \<^verbatim>\<open>ss.process\<close>; about to send
  the error on \<^verbatim>\<open>processErrorSignal\<close>; about to receive from \<^verbatim>\<open>throttle\<close>; about to
  run the deferred \<^verbatim>\<open>wg.Done()\<close>; gone.\<close>

datatype worker = Running | Posting err | Releasing | Exiting | Finished

record source_state =
  pc :: read_pc
  processErr :: "err option"
  throttle :: nat
  errq :: "err list"
  workers :: "worker list"
  stoppers :: nat
  stopsReturned :: nat
  processCalls :: nat
  deliveries :: nat
  forwarded :: "message list list"
  logged :: "err list"
  posted :: "err list"

text \<open>
  \<open>throttle\<close> and \<open>errq\<close> are the buffers of the two buffered channels; \<open>stoppers\<close>
  counts the calls of \<^verbatim>\<open>Stop\<close> blocked in their send and \<open>stopsReturned\<close> the calls
  that have returned. \<open>processCalls\<close> and \<open>deliveries\<close> number the calls of
  \<^verbatim>\<open>process\<close> and of \<^verbatim>\<open>WriteToTarget\<close>; \<open>forwarded\<close> and \<open>logged\<close> keep what
  was passed to the target and what was only logged. \<open>posted\<close> is a history variable:
  every error ever sent on \<^verbatim>\<open>processErrorSignal\<close>, oldest first.
\<close>

definition init_state :: source_state where
  "init_state =
     \<lparr>pc = NotStarted, processErr = None, throttle = 0, errq = [], workers = [],
      stoppers = 0, stopsReturned = 0, processCalls = 0, deliveries = 0,
      forwarded = [], logged = [], posted = []\<rparr>"

datatype action =
    StopCall
  | ReadStart
  | SelectExit
  | SelectError
  | SelectDefault
  | Acquire
  | Go
  | Wait
  | Process nat
  | Post nat
  | Release nat
  | Done nat

text \<open>A worker holds a slot from its launch until it has received from \<^verbatim>\<open>throttle\<close>.\<close>

fun holds_slot :: "worker \<Rightarrow> bool" where
  "holds_slot Running = True"
| "holds_slot (Posting e) = True"
| "holds_slot Releasing = True"
| "holds_slot Exiting = False"
| "holds_slot Finished = False"

definition in_flight :: "source_state \<Rightarrow> nat" where
  "in_flight s = length (filter holds_slot (workers s))"

definition all_finished :: "source_state \<Rightarrow> bool" where
  "all_finished s = list_all (\<lambda>w. w = Finished) (workers s)"

text \<open>One call of \<^verbatim>\<open>ss.process\<close> by worker \<open>i\<close>, with the answers of the outside world
  for this call.\<close>

definition run_process :: "sqs_env \<Rightarrow> nat \<Rightarrow> source_state \<Rightarrow> source_state" where
  "run_process env i s =
     (case process (ReceiveMessage env (processCalls s)) (timeNow env (processCalls s))
             (uuidNewV4 env (processCalls s)) (WriteToTarget env (deliveries s)) of
        (e, fwd, lg) \<Rightarrow>
          s\<lparr>workers := (workers s)[i := (case e of Some e' \<Rightarrow> Posting e' | None \<Rightarrow> Releasing)],
            processCalls := Suc (processCalls s),
            deliveries := (case fwd of None \<Rightarrow> deliveries s | Some b \<Rightarrow> Suc (deliveries s)),
            forwarded := (case fwd of None \<Rightarrow> forwarded s | Some b \<Rightarrow> forwarded s @ [b]),
            logged := logged s @ lg\<rparr>)"

text \<open>
  The transitions. \<open>None\<close> means that the action is not enabled in the state: the
  goroutine is not at that statement, or the statement blocks.
  \<^item> \<open>StopCall\<close>: a goroutine calls \<^verbatim>\<open>Stop\<close> and reaches \<^verbatim>\<open>ss.exitSignal <- struct{}{}\<close>.
  \<^item> \<open>ReadStart\<close>: \<^verbatim>\<open>Read\<close> is called; \<^verbatim>\<open>GetQueueUrl\<close> fails and \<^verbatim>\<open>Read\<close> returns, or
    the loop is entered.
  \<^item> \<open>SelectExit\<close>, \<open>SelectError\<close>, \<open>SelectDefault\<close>: the three cases of the \<^verbatim>\<open>select\<close>.
  \<^item> \<open>Acquire\<close>: \<^verbatim>\<open>throttle <- struct{}{}\<close>.  \<open>Go\<close>: \<^verbatim>\<open>wg.Add(1)\<close> and the \<^verbatim>\<open>go\<close> statement.
  \<^item> \<open>Wait\<close>: \<^verbatim>\<open>wg.Wait()\<close> and \<^verbatim>\<open>return processErr\<close>.
  \<^item> \<open>Process i\<close>, \<open>Post i\<close>, \<open>Release i\<close>, \<open>Done i\<close>: the four statements of worker \<open>i\<close>.
\<close>

definition step :: "nat \<Rightarrow> sqs_env \<Rightarrow> action \<Rightarrow> source_state \<Rightarrow> source_state option" where
  "step concurrentWrites env a s =
     (case a of
        StopCall \<Rightarrow> Some (s\<lparr>stoppers := Suc (stoppers s)\<rparr>)
      | ReadStart \<Rightarrow>
          if pc s = NotStarted
          then (case GetQueueUrl env of
                  Some e \<Rightarrow> Some (s\<lparr>pc := Returned (Some (Wrap e ''Failed to get SQS queue URL''))\<rparr>)
                | None \<Rightarrow> Some (s\<lparr>pc := AtSelect\<rparr>))
          else None
      | SelectExit \<Rightarrow>
          if pc s = AtSelect \<and> 0 < stoppers s
          then Some (s\<lparr>pc := AtWait, stoppers := stoppers s - 1,
                       stopsReturned := Suc (stopsReturned s)\<rparr>)
          else None
      | SelectError \<Rightarrow>
          if pc s = AtSelect
          then (case errq s of
                  [] \<Rightarrow> None
                | e # rest \<Rightarrow> Some (s\<lparr>pc := AtWait, processErr := Some e, errq := rest\<rparr>))
          else None
      | SelectDefault \<Rightarrow>
          if pc s = AtSelect \<and> stoppers s = 0 \<and> errq s = []
          then Some (s\<lparr>pc := AtThrottle\<rparr>)
          else None
      | Acquire \<Rightarrow>
          if pc s = AtThrottle \<and> throttle s < concurrentWrites
          then Some (s\<lparr>pc := AtGo, throttle := Suc (throttle s)\<rparr>)
          else None
      | Go \<Rightarrow>
          if pc s = AtGo
          then Some (s\<lparr>pc := AtSelect, workers := workers s @ [Running]\<rparr>)
          else None
      | Wait \<Rightarrow>
          if pc s = AtWait \<and> all_finished s
          then Some (s\<lparr>pc := Returned (processErr s)\<rparr>)
          else None
      | Process i \<Rightarrow>
          if i < length (workers s) \<and> workers s ! i = Running
          then Some (run_process env i s)
          else None
      | Post i \<Rightarrow>
          if i < length (workers s)
          then (case workers s ! i of
                  Posting e \<Rightarrow>
                    if length (errq s) < concurrentWrites
                    then Some (s\<lparr>workers := (workers s)[i := Releasing],
                                 errq := errq s @ [e], posted := posted s @ [e]\<rparr>)
                    else None
                | _ \<Rightarrow> None)
          else None
      | Release i \<Rightarrow>
          if i < length (workers s) \<and> workers s ! i = Releasing \<and> 0 < throttle s
          then Some (s\<lparr>workers := (workers s)[i := Exiting], throttle := throttle s - 1\<rparr>)
          else None
      | Done i \<Rightarrow>
          if i < length (workers s) \<and> workers s ! i = Exiting
          then Some (s\<lparr>workers := (workers s)[i := Finished]\<rparr>)
          else None)"

text \<open>A run under a schedule: \<open>None\<close> when the schedule picks an action that is not
  enabled.\<close>

fun exec :: "nat \<Rightarrow> sqs_env \<Rightarrow> action list \<Rightarrow> source_state \<Rightarrow> source_state option" where
  "exec concurrentWrites env [] s = Some s"
| "exec concurrentWrites env (a # sched) s =
     (case step concurrentWrites env a s of
        None \<Rightarrow> None
      | Some s' \<Rightarrow> exec concurrentWrites env sched s')"

section \<open>Vocabulary for the properties of the writers\<close>

text \<open>Whether the type assertion \<^verbatim>\<open>.(*models.Message)\<close> on a \<^verbatim>\<open>Metadata\<close> value
  succeeds.\<close>

fun is_message :: "metadata \<Rightarrow> bool" where
  "is_message (MetaMessage m) = True"
| "is_message MetaNil = False"
| "is_message (MetaOther x) = False"

text \<open>What the asynchronous loop makes of a list of results that all carry a message: the
  messages of the results without error, in order of arrival (\<open>sent_of\<close>), and the
  messages of the results with an error, each with that error attached (\<open>failed_of\<close>).\<close>

fun sent_of :: "SaramaResult list \<Rightarrow> message list" where
  "sent_of [] = []"
| "sent_of (result # stream) =
     (case (Err result, Metadata (Msg result)) of
        (None, MetaMessage m) \<Rightarrow> m # sent_of stream
      | _ \<Rightarrow> sent_of stream)"

fun failed_of :: "SaramaResult list \<Rightarrow> message list" where
  "failed_of [] = []"
| "failed_of (result # stream) =
     (case (Err result, Metadata (Msg result)) of
        (Some e, MetaMessage m) \<Rightarrow> SetError m e # failed_of stream
      | _ \<Rightarrow> failed_of stream)"

text \<open>A message without the error that \<^verbatim>\<open>SetError\<close> may have attached: the messages of
  a batch are compared up to that field.\<close>

definition forget_error :: "message \<Rightarrow> message" where
  "forget_error msg = msg\<lparr>MsgError := None\<rparr>"

text \<open>The callbacks invoked by calling the \<^verbatim>\<open>AckFunc\<close> of each message of a list in turn
  (the nil ones are skipped).\<close>

definition acks_of :: "message list \<Rightarrow> ack list" where
  "acks_of msgs = concat (map invoke_ack msgs)"

text \<open>For the chunks of an EventHub \<^verbatim>\<open>Write\<close>, the k-th being the first of the list: the
  messages of the chunks the transport accepts, the messages of the chunks it fails, and
  the errors \<^verbatim>\<open>process\<close> returns for the latter.\<close>

fun sent_chunks :: "EventHubTarget \<Rightarrow> nat \<Rightarrow> message list list \<Rightarrow> message list" where
  "sent_chunks eht k [] = []"
| "sent_chunks eht k (chunk # rest) =
     (case client eht k chunk of
        None \<Rightarrow> chunk @ sent_chunks eht (Suc k) rest
      | Some e \<Rightarrow> sent_chunks eht (Suc k) rest)"

fun failed_chunks :: "EventHubTarget \<Rightarrow> nat \<Rightarrow> message list list \<Rightarrow> message list" where
  "failed_chunks eht k [] = []"
| "failed_chunks eht k (chunk # rest) =
     (case client eht k chunk of
        None \<Rightarrow> failed_chunks eht (Suc k) rest
      | Some e \<Rightarrow> chunk @ failed_chunks eht (Suc k) rest)"

fun chunk_errors :: "EventHubTarget \<Rightarrow> nat \<Rightarrow> message list list \<Rightarrow> err list" where
  "chunk_errors eht k [] = []"
| "chunk_errors eht k (chunk # rest) =
     (case client eht k chunk of
        None \<Rightarrow> chunk_errors eht (Suc k) rest
      | Some e \<Rightarrow> Wrap e ''Failed to send message batch to EventHub''
                    # chunk_errors eht (Suc k) rest)"

text \<open>The causes held by an accumulated error.\<close>

fun causes_of :: "err option \<Rightarrow> err list" where
  "causes_of None = []"
| "causes_of (Some (Multi es)) = es"
| "causes_of (Some e) = [e]"

text \<open>The messages carried in the \<^verbatim>\<open>Metadata\<close> of a list of producer messages.\<close>

fun carried :: "ProducerMessage list \<Rightarrow> message list" where
  "carried [] = []"
| "carried (pm # rest) =
     (case Metadata pm of MetaMessage m \<Rightarrow> m # carried rest | _ \<Rightarrow> carried rest)"

text \<open>The two lists \<^verbatim>\<open>FilterOversizedMessages\<close> hands to the Kafka \<^verbatim>\<open>Write\<close>.\<close>

definition safe_messages :: "KafkaTarget \<Rightarrow> message list \<Rightarrow> message list" where
  "safe_messages kt messages =
     fst (FilterOversizedMessages messages (MaximumAllowedMessageSizeBytes kt))"

definition oversized_messages :: "KafkaTarget \<Rightarrow> message list \<Rightarrow> message list" where
  "oversized_messages kt messages =
     snd (FilterOversizedMessages messages (MaximumAllowedMessageSizeBytes kt))"

text \<open>The update of the running minimum in \<^verbatim>\<open>NewWriteResultWithTime\<close>, where a
  minimum of zero counts as not set.\<close>

definition sentinel_min :: "duration \<Rightarrow> duration \<Rightarrow> duration" where
  "sentinel_min l m = (if l < m \<or> m = 0 then l else m)"

text \<open>An SQS message whose \<^verbatim>\<open>SentTimestamp\<close> attribute is absent or does not parse as
  an integer.\<close>

definition timestamp_unusable :: "sqs_Message \<Rightarrow> bool" where
  "timestamp_unusable msg =
     (case Attributes msg SentTimestamp of
        None \<Rightarrow> True
      | Some timeCreatedStr \<Rightarrow> ParseInt timeCreatedStr = None)"

section \<open>Vocabulary for the properties of the source\<close>

text \<open>The slots: the buffer of \<^verbatim>\<open>throttle\<close> holds one token per unit in flight, and one
  more between the send on \<^verbatim>\<open>throttle\<close> and the \<^verbatim>\<open>go\<close> statement; it never holds
  more than its capacity.\<close>

definition slots_inv :: "nat \<Rightarrow> source_state \<Rightarrow> bool" where
  "slots_inv concurrentWrites s \<longleftrightarrow>
     throttle s = in_flight s + (if pc s = AtGo then 1 else 0)
   \<and> throttle s \<le> concurrentWrites"

text \<open>The error \<^verbatim>\<open>process\<close> returns when some call of \<^verbatim>\<open>ReceiveMessage\<close> has failed.\<close>

definition is_fetch_error :: "sqs_env \<Rightarrow> err \<Rightarrow> bool" where
  "is_fetch_error env e \<longleftrightarrow>
     (\<exists>k e'. ReceiveMessage env k = Inl e'
            \<and> e = Wrap e' ''Failed to get message from SQS queue'')"

text \<open>The error channel and its history: the loop takes at most one error off the channel,
  the first one posted, and is then past the loop.\<close>

definition hist_inv :: "source_state \<Rightarrow> bool" where
  "hist_inv s \<longleftrightarrow>
     posted s = (case processErr s of None \<Rightarrow> errq s | Some e \<Rightarrow> e # errq s)
   \<and> (processErr s \<noteq> None \<longrightarrow> pc s = AtWait \<or> pc s = Returned (processErr s))
   \<and> (pc s = NotStarted \<longrightarrow> workers s = [] \<and> posted s = [])"

text \<open>When \<^verbatim>\<open>Read\<close> has returned: every worker has completed, and the value is
  \<^verbatim>\<open>processErr\<close>, or the wrapped error of \<^verbatim>\<open>GetQueueUrl\<close> with no worker launched.\<close>

definition ret_inv :: "sqs_env \<Rightarrow> source_state \<Rightarrow> bool" where
  "ret_inv env s \<longleftrightarrow>
     (\<forall>r. pc s = Returned r \<longrightarrow>
        all_finished s
      \<and> (r = processErr s
         \<or> (\<exists>e. GetQueueUrl env = Some e
                \<and> r = Some (Wrap e ''Failed to get SQS queue URL'') \<and> workers s = [])))"

text \<open>Whatever is posted, or about to be, comes from a failed \<^verbatim>\<open>ReceiveMessage\<close>.\<close>

definition fetch_inv :: "sqs_env \<Rightarrow> source_state \<Rightarrow> bool" where
  "fetch_inv env s \<longleftrightarrow>
     (\<forall>e \<in> set (posted s). is_fetch_error env e)
   \<and> (\<forall>e. Posting e \<in> set (workers s) \<longrightarrow> is_fetch_error env e)"

text \<open>At most one call of \<^verbatim>\<open>Stop\<close> has returned, and then the loop is over.\<close>

definition stop_inv :: "source_state \<Rightarrow> bool" where
  "stop_inv s \<longleftrightarrow>
     stopsReturned s \<le> 1
   \<and> (stopsReturned s = 1 \<longrightarrow> pc s = AtWait \<or> (\<exists>r. pc s = Returned r))"

text \<open>The workers that may still send on \<^verbatim>\<open>processErrorSignal\<close>, and their number.\<close>

fun can_post :: "worker \<Rightarrow> bool" where
  "can_post Running = True"
| "can_post (Posting e) = True"
| "can_post Releasing = False"
| "can_post Exiting = False"
| "can_post Finished = False"

definition pending :: "source_state \<Rightarrow> nat" where
  "pending s = length (filter can_post (workers s))"

text \<open>The statements a worker still has to run, and their sum over all workers.\<close>

fun rank :: "worker \<Rightarrow> nat" where
  "rank Running = 4"
| "rank (Posting e) = 3"
| "rank Releasing = 2"
| "rank Exiting = 1"
| "rank Finished = 0"

definition work_left :: "source_state \<Rightarrow> nat" where
  "work_left s = sum_list (map rank (workers s))"

text \<open>Room on \<^verbatim>\<open>processErrorSignal\<close>: the errors in the buffer and the workers that may
  still post fit the capacity, with one to spare only while the loop is at its
  \<^verbatim>\<open>select\<close>, where it takes an error first.\<close>

definition cap_inv :: "nat \<Rightarrow> source_state \<Rightarrow> bool" where
  "cap_inv concurrentWrites s \<longleftrightarrow>
     (pc s = NotStarted \<longrightarrow> workers s = [] \<and> errq s = [])
   \<and> (pc s = AtSelect \<longrightarrow> length (errq s) + pending s \<le> Suc concurrentWrites)
   \<and> (pc s = AtThrottle \<or> pc s = AtGo \<longrightarrow> length (errq s) + pending s \<le> concurrentWrites)
   \<and> (processErr s \<noteq> None \<longrightarrow> length (errq s) + pending s \<le> concurrentWrites)"

text \<open>The loop has taken the error \<open>e\<close> and waits at \<^verbatim>\<open>wg.Wait()\<close>.\<close>

definition draining :: "nat \<Rightarrow> err \<Rightarrow> source_state \<Rightarrow> bool" where
  "draining concurrentWrites e s \<longleftrightarrow>
     slots_inv concurrentWrites s \<and> cap_inv concurrentWrites s \<and> hist_inv s
   \<and> pc s = AtWait \<and> processErr s = Some e"

text \<open>The statements the loop itself still has to run before it returns, once an error
  is on \<^verbatim>\<open>processErrorSignal\<close> (the default case is then closed), counting a unit it
  may still launch; and all the statements left, of the loop and of the workers.\<close>

fun loop_rank :: "read_pc \<Rightarrow> nat" where
  "loop_rank NotStarted = 9"
| "loop_rank AtThrottle = 8"
| "loop_rank AtGo = 7"
| "loop_rank AtSelect = 2"
| "loop_rank AtWait = 1"
| "loop_rank (Returned r) = 0"

definition steps_left :: "source_state \<Rightarrow> nat" where
  "steps_left s = work_left s + loop_rank (pc s)"

text \<open>The units the loop may still launch without passing its \<^verbatim>\<open>select\<close> again.\<close>

fun may_launch :: "read_pc \<Rightarrow> nat" where
  "may_launch AtThrottle = 1"
| "may_launch AtGo = 1"
| "may_launch NotStarted = 0"
| "may_launch AtSelect = 0"
| "may_launch AtWait = 0"
| "may_launch (Returned r) = 0"

text \<open>Errors are posted by workers only; and the loop is past its \<^verbatim>\<open>select\<close> only
  with an error taken or after a call of \<^verbatim>\<open>Stop\<close> has returned.\<close>

definition wait_inv :: "source_state \<Rightarrow> bool" where
  "wait_inv s \<longleftrightarrow>
     (workers s = [] \<longrightarrow> posted s = [])
   \<and> ((pc s = AtWait \<or> (\<exists>r. pc s = Returned r \<and> workers s \<noteq> [])) \<and> stopsReturned s = 0
        \<longrightarrow> processErr s \<noteq> None)"

text \<open>An error has been posted and no call of \<^verbatim>\<open>Stop\<close> is pending or has returned.\<close>

definition settling :: "nat \<Rightarrow> source_state \<Rightarrow> bool" where
  "settling concurrentWrites s \<longleftrightarrow>
     slots_inv concurrentWrites s \<and> cap_inv concurrentWrites s \<and> hist_inv s
   \<and> stoppers s = 0 \<and> posted s \<noteq> []
   \<and> (pc s = AtWait \<longrightarrow> processErr s \<noteq> None)
   \<and> (\<forall>r. pc s = Returned r \<longrightarrow> r = processErr s \<and> r \<noteq> None \<and> all_finished s)"

section \<open>Concrete inputs\<close>

text \<open>A batch of three messages of 2, 3 and 12 bytes, each with its own callback, for
  targets with a limit of 10 bytes per message.\<close>

definition ex_msg :: "string \<Rightarrow> nat \<Rightarrow> string \<Rightarrow> message" where
  "ex_msg key n receipt =
     \<lparr>Data = replicate n 0, PartitionKey = key, AckFunc = Some receipt,
      TimeCreated = 0, TimePulled = 0, MsgError = None\<rparr>"

definition ex_batch :: "message list" where
  "ex_batch = [ex_msg ''k1'' 2 ''r1'', ex_msg ''k2'' 3 ''r2'', ex_msg ''k3'' 12 ''r3'']"

text \<open>A synchronous target whose second \<^verbatim>\<open>SendMessage\<close> fails, an asynchronous one, and
  one with no producer.\<close>

definition ex_sync_target :: KafkaTarget where
  "ex_sync_target =
     \<lparr>syncProducer = Some (\<lambda>k pm. if k = 1 then Some (Transport 7) else None),
      asyncProducer = False, topicName = ''t'', brokers = ''b'', messageByteLimit = 10\<rparr>"

definition ex_async_target :: KafkaTarget where
  "ex_async_target =
     \<lparr>syncProducer = None, asyncProducer = True, topicName = ''t'', brokers = ''b'',
      messageByteLimit = 10\<rparr>"

definition ex_no_producer_target :: KafkaTarget where
  "ex_no_producer_target =
     \<lparr>syncProducer = None, asyncProducer = False, topicName = ''t'', brokers = ''b'',
      messageByteLimit = 10\<rparr>"

text \<open>Results on \<^verbatim>\<open>asyncResults\<close>: the outcomes of the two safe messages, the second one
  first and failed.\<close>

definition ex_stream :: "SaramaResult list" where
  "ex_stream =
     [\<lparr>Msg = async_input ex_async_target (ex_msg ''k2'' 3 ''r2''), Err = Some (Transport 7)\<rparr>,
      \<lparr>Msg = async_input ex_async_target (ex_msg ''k1'' 2 ''r1''), Err = None\<rparr>]"

text \<open>An EventHub target that takes one message per chunk and whose second
  \<^verbatim>\<open>SendBatch\<close> fails.\<close>

definition ex_eventhub :: EventHubTarget where
  "ex_eventhub =
     \<lparr>client = (\<lambda>k chunk. if k = 1 then Some (Transport 9) else None),
      eventHubNamespace = ''ns'', eventHubName = ''hub'', eh_messageByteLimit = 10,
      chunkByteLimit = 100, chunkMessageLimit = 1, contextTimeoutInSeconds = 20,
      batchByteLimit = 100\<rparr>"




text \<open>Messages pulled and created at the time of the write (latency zero) and shortly
  before it; and a message stamped after the time of the write.\<close>

definition ex_zero_latency_batch :: "message list" where
  "ex_zero_latency_batch = [mk_message ''a'' 100 100, mk_message ''b'' 90 95]"

definition ex_future_batch :: "message list" where
  "ex_future_batch = [mk_message ''c'' 130 120]"

text \<open>A sarama library that knows versions 2.0.0 and 2.1.0, and configurations that differ
  in the target version and the SASL settings.\<close>

definition ex_kafka_env :: kafka_env where
  "ex_kafka_env =
     \<lparr>ParseKafkaVersion =
        (\<lambda>s. if s = ''2.1.0'' then Inr [2, 1, 0, 0]
             else if s = ''9.9.9'' then Inr [9, 9, 9, 0]
             else Inl (Errorf ''invalid version'')),
      SupportedVersions = [[2, 0, 0, 0], [2, 1, 0, 0]],
      DefaultVersion = [1, 0, 0, 0],
      LoadX509KeyPair = (\<lambda>c k. None),
      ReadFile = (\<lambda>f. None),
      NewAsyncProducer = (\<lambda>bs. (True, None)),
      NewSyncProducer = (\<lambda>bs. (Some (\<lambda>k pm. None), None))\<rparr>"

definition ex_kafka_config :: "string \<Rightarrow> bool \<Rightarrow> string \<Rightarrow> KafkaConfig" where
  "ex_kafka_config version sasl algorithm =
     \<lparr>Brokers = ''b1:9092,b2:9092'', TopicName = ''t'', TargetVersion = version,
      MaxRetries = 3, ByteLimit = 10, Compress = False, WaitForAll = False,
      Idempotent = False, EnableSASL = sasl, SASLUsername = ''u'', SASLPassword = ''p'',
      SASLAlgorithm = algorithm, CertFile = [], KeyFile = [], CaFile = [],
      SkipVerifyTls = False, ForceSync = False, FlushFrequency = 0, FlushMessages = 0,
      FlushBytes = 0\<rparr>"

text \<open>SQS messages without a \<^verbatim>\<open>SentTimestamp\<close>, with one that is not a number, and with
  a proper one.\<close>

definition ex_sqs_batch :: "sqs_Message list" where
  "ex_sqs_batch =
     [\<lparr>Body = [1], ReceiptHandle = ''h0'', Attributes = Map.empty\<rparr>,
      \<lparr>Body = [2], ReceiptHandle = ''h1'', Attributes = [SentTimestamp \<mapsto> ''12x4'']\<rparr>,
      \<lparr>Body = [3], ReceiptHandle = ''h2'', Attributes = [SentTimestamp \<mapsto> ''1500'']\<rparr>]"

text \<open>A queue whose fourth \<^verbatim>\<open>ReceiveMessage\<close> fails, and a queue that never fails in
  front of a target that fails on the fourth delivery.\<close>

definition ex_fetch_env :: sqs_env where
  "ex_fetch_env =
     \<lparr>GetQueueUrl = None,
      ReceiveMessage = (\<lambda>k. if k = 3 then Inl (Transport 4) else Inr []),
      timeNow = (\<lambda>k. 0), uuidNewV4 = (\<lambda>k i. ''u''),
      WriteToTarget = (\<lambda>k ms. None)\<rparr>"

definition ex_target_env :: sqs_env where
  "ex_target_env =
     \<lparr>GetQueueUrl = None,
      ReceiveMessage = (\<lambda>k. Inr []),
      timeNow = (\<lambda>k. 0), uuidNewV4 = (\<lambda>k i. ''u''),
      WriteToTarget = (\<lambda>k ms. if k = 3 then Some (Transport 44) else None)\<rparr>"

text \<open>Schedules: three units launched on three slots, the first one completed, a fourth
  launched and run; then either the fourth posts its error and \<^verbatim>\<open>Read\<close> returns, or
  all complete and the loop goes on. Two calls of \<^verbatim>\<open>Stop\<close> before a \<^verbatim>\<open>Read\<close>. Two
  units launched on two slots.\<close>

definition ex_four_units :: "action list" where
  "ex_four_units =
     [ReadStart, SelectDefault, Acquire, Go, SelectDefault, Acquire, Go,
      SelectDefault, Acquire, Go, Process 0, Process 1, Process 2, Release 0, Done 0,
      SelectDefault, Acquire, Go, Process 3]"

definition ex_fetch_schedule :: "action list" where
  "ex_fetch_schedule =
     ex_four_units @ [Post 3, SelectError, Release 3, Done 3, Release 1, Done 1,
                      Release 2, Done 2, Wait]"

definition ex_target_schedule :: "action list" where
  "ex_target_schedule =
     ex_four_units @ [Release 3, Done 3, Release 1, Done 1, Release 2, Done 2, SelectDefault]"

definition ex_stop_schedule :: "action list" where
  "ex_stop_schedule = [StopCall, StopCall, ReadStart, SelectExit, Wait]"

definition ex_full_schedule :: "action list" where
  "ex_full_schedule =
     [ReadStart, SelectDefault, Acquire, Go, SelectDefault, Acquire, Go, SelectDefault]"

text \<open>The first schedule cut before the fourth unit runs, and its end after the fourth
  unit has posted its error. A queue whose every \<^verbatim>\<open>ReceiveMessage\<close> fails, with one slot:
  the first unit posts its error while the loop is blocked at the send on \<^verbatim>\<open>throttle\<close>,
  a second unit is launched, \<^verbatim>\<open>Stop\<close> is called and the \<^verbatim>\<open>select\<close> takes the exit
  signal, and the second unit fails too.\<close>

definition ex_launch_schedule :: "action list" where
  "ex_launch_schedule =
     [ReadStart, SelectDefault, Acquire, Go, SelectDefault, Acquire, Go,
      SelectDefault, Acquire, Go, Process 0, Process 1, Process 2, Release 0, Done 0,
      SelectDefault, Acquire, Go]"

definition ex_settle_schedule :: "action list" where
  "ex_settle_schedule =
     [SelectError, Release 3, Done 3, Release 1, Done 1, Release 2, Done 2, Wait]"

definition ex_failing_env :: sqs_env where
  "ex_failing_env =
     \<lparr>GetQueueUrl = None,
      ReceiveMessage = (\<lambda>k. Inl (Transport 4)),
      timeNow = (\<lambda>k. 0), uuidNewV4 = (\<lambda>k i. ''u''),
      WriteToTarget = (\<lambda>k ms. None)\<rparr>"

definition ex_stuck_schedule :: "action list" where
  "ex_stuck_schedule =
     [ReadStart, SelectDefault, Acquire, Go, SelectDefault, Process 0, Post 0, Release 0,
      Done 0, Acquire, Go, StopCall, SelectExit, Process 1]"

text \<open>The states these schedules end in.\<close>

definition ex_fetch_error :: err where
  "ex_fetch_error = Wrap (Transport 4) ''Failed to get message from SQS queue''"

definition ex_fetch_state :: source_state where
  "ex_fetch_state =
     \<lparr>pc = Returned (Some ex_fetch_error), processErr = Some ex_fetch_error,
      throttle = 0, errq = [], workers = [Finished, Finished, Finished, Finished],
      stoppers = 0, stopsReturned = 0, processCalls = 4, deliveries = 3,
      forwarded = [[], [], []], logged = [], posted = [ex_fetch_error]\<rparr>"

definition ex_target_state :: source_state where
  "ex_target_state =
     \<lparr>pc = AtThrottle, processErr = None, throttle = 0, errq = [],
      workers = [Finished, Finished, Finished, Finished], stoppers = 0, stopsReturned = 0,
      processCalls = 4, deliveries = 4, forwarded = [[], [], [], []],
      logged = [Transport 44], posted = []\<rparr>"

definition ex_stop_state :: source_state where
  "ex_stop_state =
     \<lparr>pc = Returned None, processErr = None, throttle = 0, errq = [], workers = [],
      stoppers = 1, stopsReturned = 1, processCalls = 0, deliveries = 0, forwarded = [],
      logged = [], posted = []\<rparr>"

definition ex_full_state :: source_state where
  "ex_full_state =
     \<lparr>pc = AtThrottle, processErr = None, throttle = 2, errq = [],
      workers = [Running, Running], stoppers = 0, stopsReturned = 0, processCalls = 0,
      deliveries = 0, forwarded = [], logged = [], posted = []\<rparr>"

definition ex_launched_state :: source_state where
  "ex_launched_state =
     \<lparr>pc = AtSelect, processErr = None, throttle = 3, errq = [],
      workers = [Finished, Releasing, Releasing, Running], stoppers = 0, stopsReturned = 0,
      processCalls = 3, deliveries = 3, forwarded = [[], [], []], logged = [], posted = []\<rparr>"

definition ex_posting_state :: source_state where
  "ex_posting_state =
     ex_launched_state\<lparr>workers := [Finished, Releasing, Releasing, Posting ex_fetch_error],
                        processCalls := 4\<rparr>"

definition ex_posted_state :: source_state where
  "ex_posted_state =
     ex_posting_state\<lparr>workers := [Finished, Releasing, Releasing, Releasing],
                       errq := [ex_fetch_error], posted := [ex_fetch_error]\<rparr>"

definition ex_stuck_state :: source_state where
  "ex_stuck_state =
     \<lparr>pc = AtWait, processErr = None, throttle = 1, errq = [ex_fetch_error],
      workers = [Finished, Posting ex_fetch_error], stoppers = 0, stopsReturned = 1,
      processCalls = 2, deliveries = 0, forwarded = [], logged = [],
      posted = [ex_fetch_error]\<rparr>"

section \<open>Properties of internal/models: the latency aggregates\<close>

lemmas latency_eval =
  NewWriteResultWithTime_def latency_step_def time_Sub_def minDuration_def maxDuration_def
  mk_message_def wrap64_def GetAverageFromDuration_def go_div_def procLatencies_def
  msgLatencies_def

text \<open>What \<^verbatim>\<open>NewWriteResultWithTime\<close> does compute: when every latency is
  positive the aggregates are the maximum, the minimum and (without overflow of the sum)
  the integer mean; for no message they are all zero.\<close>

lemma latency_loop_folds:
  "latency_loop t msgs (r, sp, sm) = (r', sp', sm') \<Longrightarrow>
     MaxProcLatency r' = fold max (procLatencies t msgs) (MaxProcLatency r)
   \<and> MinProcLatency r' = fold sentinel_min (procLatencies t msgs) (MinProcLatency r)
   \<and> MaxMsgLatency r' = fold max (msgLatencies t msgs) (MaxMsgLatency r)
   \<and> MinMsgLatency r' = fold sentinel_min (msgLatencies t msgs) (MinMsgLatency r)
   \<and> sp' = fold (\<lambda>l s. wrap64 (s + l)) (procLatencies t msgs) sp
   \<and> sm' = fold (\<lambda>l s. wrap64 (s + l)) (msgLatencies t msgs) sm
   \<and> Sent r' = Sent r \<and> Failed r' = Failed r
   \<and> AvgProcLatency r' = AvgProcLatency r \<and> AvgMsgLatency r' = AvgMsgLatency r"
proof (induction msgs arbitrary: r sp sm)
  case Nil
  then show ?case by (simp add: procLatencies_def msgLatencies_def)
next
  case (Cons msg rest)
  obtain r1 sp1 sm1 where st: "latency_step t msg (r, sp, sm) = (r1, sp1, sm1)"
    by (metis prod_cases3)
  with Cons.prems have "latency_loop t rest (r1, sp1, sm1) = (r', sp', sm')" by simp
  note ih = Cons.IH[OF this]
  from st have
    "MaxProcLatency r1 = max (time_Sub t (TimePulled msg)) (MaxProcLatency r)"
    "MinProcLatency r1 = sentinel_min (time_Sub t (TimePulled msg)) (MinProcLatency r)"
    "MaxMsgLatency r1 = max (time_Sub t (TimeCreated msg)) (MaxMsgLatency r)"
    "MinMsgLatency r1 = sentinel_min (time_Sub t (TimeCreated msg)) (MinMsgLatency r)"
    "sp1 = wrap64 (sp + time_Sub t (TimePulled msg))"
    "sm1 = wrap64 (sm + time_Sub t (TimeCreated msg))"
    "Sent r1 = Sent r" "Failed r1 = Failed r"
    "AvgProcLatency r1 = AvgProcLatency r" "AvgMsgLatency r1 = AvgMsgLatency r"
    by (auto simp: latency_step_def Let_def sentinel_min_def max_def)
  with ih show ?case by (simp add: procLatencies_def msgLatencies_def)
qed

lemma fold_max_from_zero:
  assumes "ls \<noteq> []" and "\<forall>l \<in> set ls. (0::int) < l"
  shows "fold max ls 0 = Max (set ls)"
proof -
  have "fold max ls 0 = Max (set (0 # ls))" by (simp only: Max.set_eq_fold)
  also have "\<dots> = max 0 (Max (set ls))" using assms(1) by simp
  also have "\<dots> = Max (set ls)"
  proof -
    from assms obtain l where "l \<in> set ls" "0 < l" by (cases ls) auto
    then have "0 \<le> Max (set ls)" by (meson List.finite_set Max_ge less_imp_le order_trans)
    then show ?thesis by simp
  qed
  finally show ?thesis .
qed

lemma fold_sentinel_min_pos:
  "0 < m \<Longrightarrow> \<forall>l \<in> set ls. 0 < l \<Longrightarrow> fold sentinel_min ls m = fold min ls m"
proof (induction ls arbitrary: m)
  case Nil
  then show ?case by simp
next
  case (Cons l ls)
  then have "sentinel_min l m = min l m" "0 < min l m"
    by (auto simp: sentinel_min_def min_def)
  with Cons show ?case by simp
qed

lemma fold_sentinel_min_from_zero:
  assumes "ls \<noteq> []" and "\<forall>l \<in> set ls. 0 < l"
  shows "fold sentinel_min ls 0 = Min (set ls)"
proof -
  from assms(1) obtain l rest where ls: "ls = l # rest" by (cases ls) auto
  with assms(2) have "0 < l" "\<forall>x \<in> set rest. 0 < x" by simp_all
  then have "fold sentinel_min rest l = fold min rest l" by (rule fold_sentinel_min_pos)
  also have "\<dots> = Min (set (l # rest))" by (simp only: Min.set_eq_fold)
  finally show ?thesis by (simp add: ls sentinel_min_def)
qed

lemma wrap64_id: "minDuration \<le> x \<Longrightarrow> x \<le> maxDuration \<Longrightarrow> wrap64 x = x"
  by (simp add: wrap64_def minDuration_def maxDuration_def)

lemma fold_wrap_sum:
  "\<forall>l \<in> set ls. 0 < l \<Longrightarrow> 0 \<le> s \<Longrightarrow> s + sum_list ls \<le> maxDuration
   \<Longrightarrow> fold (\<lambda>l s. wrap64 (s + l)) ls s = s + sum_list ls"
proof (induction ls arbitrary: s)
  case Nil
  then show ?case by simp
next
  case (Cons l ls)
  from Cons.prems have pos: "0 < l" "\<forall>x \<in> set ls. 0 < x" by simp_all
  then have "0 \<le> sum_list ls" by (simp add: sum_list_nonneg less_imp_le)
  with Cons.prems pos have "minDuration \<le> s + l" "s + l \<le> maxDuration"
    by (simp_all add: minDuration_def)
  then have w: "wrap64 (s + l) = s + l" by (rule wrap64_id)
  from Cons.prems pos have "0 \<le> s + l" "(s + l) + sum_list ls \<le> maxDuration" by simp_all
  from Cons.IH[OF pos(2) this] w show ?case by simp
qed

lemma latency_aggregates_when_positive:
  assumes ne: "messages \<noteq> []"
      and pp: "\<forall>l \<in> set (procLatencies timeOfWrite messages). 0 < l"
      and pm: "\<forall>l \<in> set (msgLatencies timeOfWrite messages). 0 < l"
  shows "MaxProcLatency (NewWriteResultWithTime sent failed timeOfWrite messages)
           = Max (set (procLatencies timeOfWrite messages))"
    and "MinProcLatency (NewWriteResultWithTime sent failed timeOfWrite messages)
           = Min (set (procLatencies timeOfWrite messages))"
    and "MaxMsgLatency (NewWriteResultWithTime sent failed timeOfWrite messages)
           = Max (set (msgLatencies timeOfWrite messages))"
    and "MinMsgLatency (NewWriteResultWithTime sent failed timeOfWrite messages)
           = Min (set (msgLatencies timeOfWrite messages))"
    and "sum_list (procLatencies timeOfWrite messages) \<le> maxDuration \<Longrightarrow>
         AvgProcLatency (NewWriteResultWithTime sent failed timeOfWrite messages)
           = sum_list (procLatencies timeOfWrite messages) div int (length messages)"
    and "sum_list (msgLatencies timeOfWrite messages) \<le> maxDuration \<Longrightarrow>
         AvgMsgLatency (NewWriteResultWithTime sent failed timeOfWrite messages)
           = sum_list (msgLatencies timeOfWrite messages) div int (length messages)"
proof -
  let ?r0 = "\<lparr>Sent = sent, Failed = failed,
                MaxProcLatency = 0, MinProcLatency = 0, AvgProcLatency = 0,
                MaxMsgLatency = 0, MinMsgLatency = 0, AvgMsgLatency = 0\<rparr>"
  obtain r sp sm where lp: "latency_loop timeOfWrite messages (?r0, 0, 0) = (r, sp, sm)"
    by (metis prod_cases3)
  note f = latency_loop_folds[OF lp]
  from ne have nep: "procLatencies timeOfWrite messages \<noteq> []"
    and nem: "msgLatencies timeOfWrite messages \<noteq> []"
    by (simp_all add: procLatencies_def msgLatencies_def)
  from ne lp have res: "NewWriteResultWithTime sent failed timeOfWrite messages
      = r\<lparr>AvgProcLatency := GetAverageFromDuration sp (int (length messages)),
           AvgMsgLatency := GetAverageFromDuration sm (int (length messages))\<rparr>"
    by (simp add: NewWriteResultWithTime_def Let_def)
  from f res show "MaxProcLatency (NewWriteResultWithTime sent failed timeOfWrite messages)
           = Max (set (procLatencies timeOfWrite messages))"
    by (simp add: fold_max_from_zero[OF nep pp])
  from f res show "MinProcLatency (NewWriteResultWithTime sent failed timeOfWrite messages)
           = Min (set (procLatencies timeOfWrite messages))"
    by (simp add: fold_sentinel_min_from_zero[OF nep pp])
  from f res show "MaxMsgLatency (NewWriteResultWithTime sent failed timeOfWrite messages)
           = Max (set (msgLatencies timeOfWrite messages))"
    by (simp add: fold_max_from_zero[OF nem pm])
  from f res show "MinMsgLatency (NewWriteResultWithTime sent failed timeOfWrite messages)
           = Min (set (msgLatencies timeOfWrite messages))"
    by (simp add: fold_sentinel_min_from_zero[OF nem pm])
  have gd: "0 \<le> a \<Longrightarrow> 0 < b \<Longrightarrow> go_div a b = a div b" for a b :: int
    by (cases "a = 0") (simp_all add: go_div_def)
  {
    assume b: "sum_list (procLatencies timeOfWrite messages) \<le> maxDuration"
    from fold_wrap_sum[OF pp, of 0] b f
    have "sp = sum_list (procLatencies timeOfWrite messages)" by simp
    moreover have "0 \<le> sum_list (procLatencies timeOfWrite messages)"
      using pp by (simp add: sum_list_nonneg less_imp_le)
    ultimately show "AvgProcLatency (NewWriteResultWithTime sent failed timeOfWrite messages)
           = sum_list (procLatencies timeOfWrite messages) div int (length messages)"
      using res ne by (simp add: GetAverageFromDuration_def gd)
  }
  {
    assume b: "sum_list (msgLatencies timeOfWrite messages) \<le> maxDuration"
    from fold_wrap_sum[OF pm, of 0] b f
    have "sm = sum_list (msgLatencies timeOfWrite messages)" by simp
    moreover have "0 \<le> sum_list (msgLatencies timeOfWrite messages)"
      using pm by (simp add: sum_list_nonneg less_imp_le)
    ultimately show "AvgMsgLatency (NewWriteResultWithTime sent failed timeOfWrite messages)
           = sum_list (msgLatencies timeOfWrite messages) div int (length messages)"
      using res ne by (simp add: GetAverageFromDuration_def gd)
  }
qed

lemma latency_aggregates_empty:
  "NewWriteResultWithTime sent failed timeOfWrite []
     = \<lparr>Sent = sent, Failed = failed,
        MaxProcLatency = 0, MinProcLatency = 0, AvgProcLatency = 0,
        MaxMsgLatency = 0, MinMsgLatency = 0, AvgMsgLatency = 0\<rparr>"
  by (simp add: NewWriteResultWithTime_def)

text \<open>
  Claim C7 at concrete inputs. \<^verbatim>\<open>NewWriteResultWithTime\<close> starts the minimum and the
  maximum at zero and treats a minimum of zero as "not set yet". With latencies 0 ns and
  5 ns it returns a minimum of 5 ns, not 0 (and likewise 10 ns for the message latencies
  0 ns and 10 ns); with a single latency of -20 ns it returns a maximum of 0, not -20.
\<close>

theorem latency_min_max_zero_sentinel:
  "procLatencies 100 ex_zero_latency_batch = [0, 5]
   \<and> Min (set (procLatencies 100 ex_zero_latency_batch)) = 0
   \<and> MinProcLatency (NewWriteResultWithTime 2 0 100 ex_zero_latency_batch) = 5
   \<and> msgLatencies 100 ex_zero_latency_batch = [0, 10]
   \<and> Min (set (msgLatencies 100 ex_zero_latency_batch)) = 0
   \<and> MinMsgLatency (NewWriteResultWithTime 2 0 100 ex_zero_latency_batch) = 10
   \<and> procLatencies 100 ex_future_batch = [- 20]
   \<and> Max (set (procLatencies 100 ex_future_batch)) = - 20
   \<and> MaxProcLatency (NewWriteResultWithTime 1 0 100 ex_future_batch) = 0"
  by (simp add: latency_eval ex_zero_latency_batch_def ex_future_batch_def)

section \<open>Properties of the writers\<close>

subsection \<open>The loops of the Kafka and EventHub writers\<close>

lemma forget_error_SetError [simp]: "forget_error (SetError m e) = forget_error m"
  by (simp add: forget_error_def SetError_def)

lemma acks_of_append: "acks_of (xs @ ys) = acks_of xs @ acks_of ys"
  by (simp add: acks_of_def)

lemma acks_of_simps [simp]: "acks_of [] = []" "acks_of (m # ms) = invoke_ack m @ acks_of ms"
  by (simp_all add: acks_of_def)

lemma async_drain_returns:
  "async_drain n stream (sent, failed, er, acks) = Returns ((sent', failed', er', acks'), rest)
   \<Longrightarrow> n \<le> length stream \<and> rest = drop n stream
       \<and> sent' = sent @ sent_of (take n stream)
       \<and> failed' = failed @ failed_of (take n stream)
       \<and> acks' = acks @ acks_of (sent_of (take n stream))
       \<and> length (sent_of (take n stream)) + length (failed_of (take n stream)) = n
       \<and> (\<forall>r \<in> set (take n stream). is_message (Metadata (Msg r)))"
proof (induction stream arbitrary: n sent failed er acks)
  case Nil
  then show ?case by (cases n) simp_all
next
  case (Cons result stream)
  show ?case
  proof (cases n)
    case 0
    with Cons.prems show ?thesis by simp
  next
    case (Suc k)
    show ?thesis
    proof (cases "Metadata (Msg result)")
      case MetaNil
      with Cons.prems Suc show ?thesis by (simp split: option.splits)
    next
      case (MetaOther x)
      with Cons.prems Suc show ?thesis by (simp split: option.splits)
    next
      case (MetaMessage m)
      show ?thesis
      proof (cases "Err result")
        case None
        with MetaMessage Cons.prems Suc have
          "async_drain k stream (sent @ [m], failed, er, acks @ invoke_ack m)
             = Returns ((sent', failed', er', acks'), rest)" by simp
        from Cons.IH[OF this] None MetaMessage Suc show ?thesis
          by (simp add: acks_of_append)
      next
        case (Some e)
        with MetaMessage Cons.prems Suc have
          "async_drain k stream (sent, failed @ [SetError m e], multierror_Append er e, acks)
             = Returns ((sent', failed', er', acks'), rest)" by simp
        from Cons.IH[OF this] Some MetaMessage Suc show ?thesis
          by simp
      qed
    qed
  qed
qed

lemma async_drain_total:
  "n \<le> length stream \<Longrightarrow> \<forall>r \<in> set (take n stream). is_message (Metadata (Msg r))
   \<Longrightarrow> \<exists>out. async_drain n stream (sent, failed, er, acks) = Returns out"
proof (induction stream arbitrary: n sent failed er acks)
  case Nil
  then show ?case by simp
next
  case (Cons result stream)
  show ?case
  proof (cases n)
    case 0
    then show ?thesis by simp
  next
    case (Suc k)
    with Cons.prems obtain m where m: "Metadata (Msg result) = MetaMessage m"
      by (cases "Metadata (Msg result)") auto
    from Suc Cons.prems have k: "k \<le> length stream"
      "\<forall>r \<in> set (take k stream). is_message (Metadata (Msg r))" by simp_all
    show ?thesis
    proof (cases "Err result")
      case None
      with Cons.IH[OF k] m Suc show ?thesis by simp
    next
      case (Some e)
      with Cons.IH[OF k] m Suc show ?thesis by simp
    qed
  qed
qed

lemma sync_loop_char:
  "sync_loop send kt k msgs (sent, failed, er, acks) = (sent', failed', er', acks')
   \<Longrightarrow> \<exists>s f. sent' = sent @ s \<and> failed' = failed @ f \<and> acks' = acks @ acks_of s
          \<and> length s + length f = length msgs
          \<and> mset (map forget_error s) + mset (map forget_error f) = mset (map forget_error msgs)"
proof (induction msgs arbitrary: k sent failed er acks)
  case Nil
  then show ?case by simp
next
  case (Cons msg rest)
  show ?case
  proof (cases "send k (sync_input kt msg)")
    case None
    with Cons.prems have
      "sync_loop send kt (Suc k) rest (sent @ [msg], failed, er, acks @ invoke_ack msg)
         = (sent', failed', er', acks')" by simp
    from Cons.IH[OF this] obtain s f where
      "sent' = (sent @ [msg]) @ s" "failed' = failed @ f"
      "acks' = (acks @ invoke_ack msg) @ acks_of s" "length s + length f = length rest"
      "mset (map forget_error s) + mset (map forget_error f) = mset (map forget_error rest)"
      by blast
    then show ?thesis
      by - (rule exI[where x = "msg # s"], rule exI[where x = f], simp)
  next
    case (Some e)
    with Cons.prems have
      "sync_loop send kt (Suc k) rest (sent, failed @ [SetError msg e], multierror_Append er e, acks)
         = (sent', failed', er', acks')" by simp
    from Cons.IH[OF this] obtain s f where
      "sent' = sent @ s" "failed' = (failed @ [SetError msg e]) @ f"
      "acks' = acks @ acks_of s" "length s + length f = length rest"
      "mset (map forget_error s) + mset (map forget_error f) = mset (map forget_error rest)"
      by blast
    then show ?thesis
      by - (rule exI[where x = s], rule exI[where x = "SetError msg e # f"],
            simp)
  qed
qed

lemma multierror_Append_causes:
  "multierror_Append acc e = Some (Multi (causes_of acc @ multierror_causes e))"
  by (cases "(acc, e)" rule: multierror_Append.cases) simp_all

lemma eventhub_loop_char:
  "eventhub_loop eht k chunks (wr, er, acks) = (wr', er', acks')
   \<Longrightarrow> SentMsgs wr' = SentMsgs wr @ sent_chunks eht k chunks
     \<and> FailedMsgs wr' = FailedMsgs wr @ failed_chunks eht k chunks
     \<and> SentCount wr' = SentCount wr + int (length (sent_chunks eht k chunks))
     \<and> FailedCount wr' = FailedCount wr + int (length (failed_chunks eht k chunks))
     \<and> Oversized wr' = Oversized wr \<and> Invalid wr' = Invalid wr
     \<and> acks' = acks @ acks_of (sent_chunks eht k chunks)
     \<and> er' = (if chunk_errors eht k chunks = [] then er
              else Some (Multi (causes_of er @ chunk_errors eht k chunks)))"
proof (induction chunks arbitrary: k wr er acks)
  case Nil
  then show ?case by simp
next
  case (Cons chunk rest)
  show ?case
  proof (cases "client eht k chunk")
    case None
    with Cons.prems have
      "eventhub_loop eht (Suc k) rest
         (Append wr (NewTargetWriteResult chunk [] [] []), er, acks @ acks_of chunk)
       = (wr', er', acks')"
      by (simp add: EventHubTarget_process_def acks_of_def)
    from Cons.IH[OF this] None show ?thesis
      by (simp add: Append_def NewTargetWriteResult_def acks_of_append)
  next
    case (Some e)
    with Cons.prems have
      "eventhub_loop eht (Suc k) rest
         (Append wr (NewTargetWriteResult [] chunk [] []),
          multierror_Append er (Wrap e ''Failed to send message batch to EventHub''), acks)
       = (wr', er', acks')"
      by (simp add: EventHubTarget_process_def)
    from Cons.IH[OF this] Some show ?thesis
      by (simp add: Append_def NewTargetWriteResult_def multierror_Append_causes)
  qed
qed

lemma chunks_length:
  "length (sent_chunks eht k chunks) + length (failed_chunks eht k chunks)
     = length (concat chunks)"
  by (induction chunks arbitrary: k) (simp_all split: option.splits)

lemma chunk_loop_length:
  "chunk_loop maxCount maxMsg maxChunk msgs buf n chunks over = (cs, os)
   \<Longrightarrow> length (concat cs) + length os
       = length msgs + length buf + length (concat chunks) + length over"
proof (induction msgs arbitrary: buf n chunks over)
  case Nil
  then show ?case by (auto split: if_splits)
next
  case (Cons msg rest)
  then show ?case by (auto split: if_splits)
qed

lemma GetChunkedMessages_length:
  "GetChunkedMessages messages maxCount maxMsg maxChunk = (chunks, oversized)
   \<Longrightarrow> length (concat chunks) + length oversized = length messages"
  using chunk_loop_length[of maxCount maxMsg maxChunk messages "[]" 0 "[]" "[]" chunks oversized]
  by (simp add: GetChunkedMessages_def)

lemma failing_chunk_recorded:
  "i < length chunks \<Longrightarrow> client eht (k + i) (chunks ! i) = Some e
   \<Longrightarrow> Wrap e ''Failed to send message batch to EventHub'' \<in> set (chunk_errors eht k chunks)
       \<and> set (chunks ! i) \<subseteq> set (failed_chunks eht k chunks)"
proof (induction chunks arbitrary: k i)
  case Nil
  then show ?case by simp
next
  case (Cons chunk rest)
  show ?case
  proof (cases i)
    case 0
    with Cons.prems show ?thesis by simp
  next
    case (Suc j)
    with Cons.prems have "j < length rest" "client eht (Suc k + j) (rest ! j) = Some e"
      by simp_all
    from Cons.IH[OF this] Suc show ?thesis
      by (auto split: option.splits)
  qed
qed

lemma EventHubTarget_Write_char:
  assumes "GetChunkedMessages messages (chunkMessageLimit eht) (eh_messageByteLimit eht)
             (chunkByteLimit eht) = (chunks, oversized)"
      and "EventHubTarget_Write eht messages = (r, e, acks)"
  shows "SentMsgs r = sent_chunks eht 0 chunks"
    and "FailedMsgs r = failed_chunks eht 0 chunks"
    and "SentCount r = int (length (sent_chunks eht 0 chunks))"
    and "FailedCount r = int (length (failed_chunks eht 0 chunks))"
    and "Oversized r = oversized" and "Invalid r = []"
    and "acks = acks_of (sent_chunks eht 0 chunks)"
    and "e = (if chunk_errors eht 0 chunks = [] then None
              else Some (Wrap (Multi (chunk_errors eht 0 chunks))
                           ''Error writing messages to EventHub''))"
proof -
  obtain wr er ak where loop:
    "eventhub_loop eht 0 chunks
       (\<lparr>SentCount = 0, FailedCount = 0, SentMsgs = [], FailedMsgs = [],
         Oversized = oversized, Invalid = []\<rparr>, None, []) = (wr, er, ak)"
    by (metis prod_cases3)
  with assms have res: "r = wr" "acks = ak"
    "e = map_option (\<lambda>e. Wrap e ''Error writing messages to EventHub'') er"
    by (simp_all add: EventHubTarget_Write_def)
  note c = eventhub_loop_char[OF loop]
  from c res show "SentMsgs r = sent_chunks eht 0 chunks"
    "FailedMsgs r = failed_chunks eht 0 chunks"
    "SentCount r = int (length (sent_chunks eht 0 chunks))"
    "FailedCount r = int (length (failed_chunks eht 0 chunks))"
    "Oversized r = oversized" "Invalid r = []"
    "acks = acks_of (sent_chunks eht 0 chunks)" by simp_all
  from c res show "e = (if chunk_errors eht 0 chunks = [] then None
              else Some (Wrap (Multi (chunk_errors eht 0 chunks))
                           ''Error writing messages to EventHub''))"
    by simp
qed



lemma invoke_ack_forget [simp]: "invoke_ack (forget_error m) = invoke_ack m"
  by (simp add: invoke_ack_def forget_error_def)

lemma acks_of_forget [simp]: "acks_of (map forget_error xs) = acks_of xs"
  by (induction xs) simp_all



lemma carried_async_input [simp]: "carried (map (async_input kt) msgs) = msgs"
  by (induction msgs) (simp_all add: async_input_def)


lemma safe_oversized_mset:
  "mset (safe_messages kt messages) + mset (oversized_messages kt messages) = mset messages"
  by (simp add: safe_messages_def oversized_messages_def FilterOversizedMessages_def)




lemma filter_pair:
  "FilterOversizedMessages messages (MaximumAllowedMessageSizeBytes kt)
     = (safe_messages kt messages, oversized_messages kt messages)"
  by (simp add: safe_messages_def oversized_messages_def)

lemma safe_oversized_length:
  "length (safe_messages kt messages) + length (oversized_messages kt messages)
     = length messages"
  using safe_oversized_mset[of kt messages, THEN arg_cong, of size] by simp

lemma KafkaTarget_Write_async:
  assumes "asyncProducer kt"
      and "KafkaTarget_Write kt stream messages = Returns (r, e, acks, rest)"
  shows "length (safe_messages kt messages) \<le> length stream
       \<and> rest = drop (length (safe_messages kt messages)) stream
       \<and> r = NewTargetWriteResult
               (sent_of (take (length (safe_messages kt messages)) stream))
               (failed_of (take (length (safe_messages kt messages)) stream))
               (oversized_messages kt messages) []
       \<and> acks = acks_of (sent_of (take (length (safe_messages kt messages)) stream))
       \<and> length (sent_of (take (length (safe_messages kt messages)) stream))
           + length (failed_of (take (length (safe_messages kt messages)) stream))
           = length (safe_messages kt messages)
       \<and> (\<forall>res \<in> set (take (length (safe_messages kt messages)) stream).
             is_message (Metadata (Msg res)))"
proof -
  let ?n = "length (safe_messages kt messages)"
  from assms obtain sent failed er ak where
    dr: "async_drain ?n stream ([], [], None, []) = Returns ((sent, failed, er, ak), rest)"
    and fin: "kafka_finish kt (oversized_messages kt messages) (sent, failed, er, ak) rest
                = (r, e, acks, rest)"
    by (auto simp: KafkaTarget_Write_def filter_pair kafka_finish_def split: outcome.splits)
  from async_drain_returns[OF dr] fin show ?thesis
    by (simp add: kafka_finish_def)
qed

lemma KafkaTarget_Write_async_total:
  assumes "asyncProducer kt"
      and "length (safe_messages kt messages) \<le> length stream"
      and "\<forall>res \<in> set (take (length (safe_messages kt messages)) stream).
             is_message (Metadata (Msg res))"
  shows "\<exists>ret. KafkaTarget_Write kt stream messages = Returns ret"
proof -
  from async_drain_total[OF assms(2,3)] obtain out where
    "async_drain (length (safe_messages kt messages)) stream ([], [], None, []) = Returns out"
    by blast
  with assms(1) show ?thesis
    by (cases out) (auto simp: KafkaTarget_Write_def filter_pair kafka_finish_def split: prod.splits)
qed

lemma KafkaTarget_Write_sync:
  assumes "\<not> asyncProducer kt" and "syncProducer kt = Some send"
  shows "\<exists>r e acks. KafkaTarget_Write kt stream messages = Returns (r, e, acks, stream)
           \<and> acks = acks_of (SentMsgs r)
           \<and> SentCount r = int (length (SentMsgs r))
           \<and> FailedCount r = int (length (FailedMsgs r))
           \<and> length (SentMsgs r) + length (FailedMsgs r) = length (safe_messages kt messages)
           \<and> mset (map forget_error (SentMsgs r)) + mset (map forget_error (FailedMsgs r))
               = mset (map forget_error (safe_messages kt messages))
           \<and> Oversized r = oversized_messages kt messages \<and> Invalid r = []"
proof -
  obtain sent failed er ak where
    lp: "sync_loop send kt 0 (safe_messages kt messages) ([], [], None, [])
           = (sent, failed, er, ak)"
    by (metis prod_cases4)
  from sync_loop_char[OF lp] have
    "ak = acks_of sent" "length sent + length failed = length (safe_messages kt messages)"
    "mset (map forget_error sent) + mset (map forget_error failed)
       = mset (map forget_error (safe_messages kt messages))"
    by auto
  with assms lp show ?thesis
    by (simp add: KafkaTarget_Write_def filter_pair kafka_finish_def NewTargetWriteResult_def)
qed

lemma KafkaTarget_Write_none:
  assumes "\<not> asyncProducer kt" and "syncProducer kt = None"
  shows "KafkaTarget_Write kt stream messages
           = Returns (NewTargetWriteResult [] [] (oversized_messages kt messages) [],
                      Some (Wrap (Multi [Errorf ''no producer has been configured''])
                              (''Error writing messages to Kafka topic: '' @ topicName kt)),
                      [], stream)"
  using assms by (simp add: KafkaTarget_Write_def filter_pair kafka_finish_def)




lemma async_submitted_length [simp]:
  "length (async_submitted kt messages) = length (safe_messages kt messages)"
  by (simp add: async_submitted_def safe_messages_def)

lemma count_sum_New:
  "count_sum (NewTargetWriteResult s f ov iv)
     = int (length s) + int (length f) + int (length ov) + int (length iv)"
  by (simp add: count_sum_def NewTargetWriteResult_def)



subsection \<open>The writers on a concrete batch\<close>

lemma ex_safe:
  "messageByteLimit kt = 10 \<Longrightarrow>
     safe_messages kt ex_batch = [ex_msg ''k1'' 2 ''r1'', ex_msg ''k2'' 3 ''r2'']"
  by (simp add: safe_messages_def FilterOversizedMessages_def
        MaximumAllowedMessageSizeBytes_def ex_batch_def ex_msg_def msg_size_def)

lemma ex_oversized:
  "messageByteLimit kt = 10 \<Longrightarrow> oversized_messages kt ex_batch = [ex_msg ''k3'' 12 ''r3'']"
  by (simp add: oversized_messages_def FilterOversizedMessages_def
        MaximumAllowedMessageSizeBytes_def ex_batch_def ex_msg_def msg_size_def)

lemma ex_chunks:
  "GetChunkedMessages ex_batch 1 10 100
     = ([[ex_msg ''k1'' 2 ''r1''], [ex_msg ''k2'' 3 ''r2'']], [ex_msg ''k3'' 12 ''r3''])"
  by (simp add: GetChunkedMessages_def ex_batch_def ex_msg_def msg_size_def)




subsection \<open>Counts\<close>

text \<open>
  Claim C1. On the synchronous and on the asynchronous Kafka path (a target with a
  producer), every \<^verbatim>\<open>Write\<close> that returns reports counts that add up to the size of
  the input batch: \<open>Sent + Failed + Oversized + Invalid = len(messages)\<close>. The
  synchronous path always returns; the asynchronous path returns as soon as the result
  channel delivers one outcome carrying a message for each submitted message. The EventHub
  \<^verbatim>\<open>Write\<close> always returns and its counts add up to the size of the input batch,
  whatever the transport answers for each chunk, a failure of a whole chunk included.
\<close>

theorem delivery_counts_partition_input:
  "(asyncProducer kt \<or> syncProducer kt \<noteq> None \<longrightarrow>
      (\<forall>r e acks rest.
          KafkaTarget_Write kt stream messages = Returns (r, e, acks, rest)
          \<longrightarrow> count_sum r = int (length messages)))
   \<and> (\<not> asyncProducer kt \<and> syncProducer kt \<noteq> None \<longrightarrow>
         (\<exists>ret. KafkaTarget_Write kt stream messages = Returns ret))
   \<and> (asyncProducer kt \<and> length (safe_messages kt messages) \<le> length stream
         \<and> (\<forall>res \<in> set (take (length (safe_messages kt messages)) stream).
               is_message (Metadata (Msg res))) \<longrightarrow>
         (\<exists>ret. KafkaTarget_Write kt stream messages = Returns ret))
   \<and> count_sum (fst (EventHubTarget_Write eht messages)) = int (length messages)"
proof (intro conjI impI allI)
  fix r e acks rest
  assume prod: "asyncProducer kt \<or> syncProducer kt \<noteq> None"
     and ret: "KafkaTarget_Write kt stream messages = Returns (r, e, acks, rest)"
  show "count_sum r = int (length messages)"
  proof (cases "asyncProducer kt")
    case True
    from KafkaTarget_Write_async[OF True ret] safe_oversized_length[of kt messages]
    show ?thesis by (simp add: count_sum_New)
  next
    case False
    with prod obtain send where "syncProducer kt = Some send" by auto
    from KafkaTarget_Write_sync[OF False this, of stream messages] ret
      safe_oversized_length[of kt messages]
    show ?thesis by (auto simp: count_sum_def)
  qed
next
  assume "\<not> asyncProducer kt \<and> syncProducer kt \<noteq> None"
  then obtain send where "\<not> asyncProducer kt" "syncProducer kt = Some send" by auto
  from KafkaTarget_Write_sync[OF this, of stream messages]
  show "\<exists>ret. KafkaTarget_Write kt stream messages = Returns ret" by blast
next
  assume "asyncProducer kt \<and> length (safe_messages kt messages) \<le> length stream
         \<and> (\<forall>res \<in> set (take (length (safe_messages kt messages)) stream).
               is_message (Metadata (Msg res)))"
  then show "\<exists>ret. KafkaTarget_Write kt stream messages = Returns ret"
    using KafkaTarget_Write_async_total by blast
next
  obtain chunks oversized where g:
    "GetChunkedMessages messages (chunkMessageLimit eht) (eh_messageByteLimit eht)
       (chunkByteLimit eht) = (chunks, oversized)" by (metis surj_pair)
  obtain r e acks where w: "EventHubTarget_Write eht messages = (r, e, acks)"
    by (metis prod_cases3)
  from EventHubTarget_Write_char[OF g w] chunks_length[of eht 0 chunks]
    GetChunkedMessages_length[OF g] w
  show "count_sum (fst (EventHubTarget_Write eht messages)) = int (length messages)"
    by (simp add: count_sum_def)
qed

text \<open>The three paths on a batch of three messages, one of them oversized, with one
  failed delivery on each path.\<close>

theorem delivery_counts_partition_input_witness:
  "(asyncProducer ex_async_target
      \<and> length (safe_messages ex_async_target ex_batch) \<le> length ex_stream
      \<and> list_all (\<lambda>res. is_message (Metadata (Msg res)))
            (take (length (safe_messages ex_async_target ex_batch)) ex_stream)
      \<and> (\<exists>r e acks rest.
            KafkaTarget_Write ex_async_target ex_stream ex_batch = Returns (r, e, acks, rest)
            \<and> count_sum r = 3))
   \<and> (\<not> asyncProducer ex_sync_target \<and> syncProducer ex_sync_target \<noteq> None
      \<and> (\<exists>r e acks rest.
            KafkaTarget_Write ex_sync_target [] ex_batch = Returns (r, e, acks, rest)
            \<and> count_sum r = 3))
   \<and> count_sum (fst (EventHubTarget_Write ex_eventhub ex_batch)) = 3"
proof -
  have len: "int (length ex_batch) = 3" by (simp add: ex_batch_def)
  have a: "asyncProducer ex_async_target"
    "length (safe_messages ex_async_target ex_batch) \<le> length ex_stream"
    "\<forall>res \<in> set (take (length (safe_messages ex_async_target ex_batch)) ex_stream).
        is_message (Metadata (Msg res))"
    by (simp_all add: ex_safe ex_async_target_def ex_stream_def async_input_def)
  have s: "\<not> asyncProducer ex_sync_target" "syncProducer ex_sync_target \<noteq> None"
    by (simp_all add: ex_sync_target_def)
  note t1 = delivery_counts_partition_input[of ex_async_target ex_stream ex_batch ex_eventhub]
  note t2 = delivery_counts_partition_input[of ex_sync_target "[]" ex_batch ex_eventhub]
  from t1 a len have "\<exists>r e acks rest.
      KafkaTarget_Write ex_async_target ex_stream ex_batch = Returns (r, e, acks, rest)
      \<and> count_sum r = 3"
    by (metis prod_cases4)
  moreover from t2 s len have "\<exists>r e acks rest.
      KafkaTarget_Write ex_sync_target [] ex_batch = Returns (r, e, acks, rest)
      \<and> count_sum r = 3"
    by (metis prod_cases4)
  moreover from t1 len have "count_sum (fst (EventHubTarget_Write ex_eventhub ex_batch)) = 3"
    by simp
  ultimately show ?thesis using a s by (simp add: list_all_iff)
qed

text \<open>
  The third branch of the Kafka \<^verbatim>\<open>Write\<close> is on neither of the two paths: it is taken
  when the target has no producer at all, returns the error "no producer has been
  configured", and reports the oversized messages only.
\<close>

lemma no_producer_branch_counts:
  "KafkaTarget_Write ex_no_producer_target [] ex_batch
     = Returns (NewTargetWriteResult [] [] [ex_msg ''k3'' 12 ''r3''] [],
                Some (Wrap (Multi [Errorf ''no producer has been configured''])
                        ''Error writing messages to Kafka topic: t''),
                [], [])
   \<and> count_sum (NewTargetWriteResult [] [] [ex_msg ''k3'' 12 ''r3''] []) = 1
   \<and> int (length ex_batch) = 3"
proof -
  have "\<not> asyncProducer ex_no_producer_target" "syncProducer ex_no_producer_target = None"
    "messageByteLimit ex_no_producer_target = 10" "topicName ex_no_producer_target = ''t''"
    by (simp_all add: ex_no_producer_target_def)
  moreover have "int (length ex_batch) = 3" by (simp add: ex_batch_def)
  ultimately show ?thesis
    by (simp add: KafkaTarget_Write_none ex_oversized count_sum_New)
qed

subsection \<open>The asynchronous Kafka path\<close>




subsection \<open>A failed EventHub chunk\<close>

text \<open>
  Claim C5. When \<^verbatim>\<open>SendBatch\<close> reports an error for a chunk, \<^verbatim>\<open>process\<close> reports
  every message of the chunk Failed and none Sent, invokes no callback, and returns the
  error (wrapped). In the result of \<^verbatim>\<open>Write\<close> the messages of that chunk are among the
  Failed ones and the error returned lists the cause.
\<close>

theorem eventhub_failed_chunk_all_failed:
  "(client eht k chunk = Some e \<longrightarrow>
      EventHubTarget_process eht k chunk
        = (NewTargetWriteResult [] chunk [] [],
           Some (Wrap e ''Failed to send message batch to EventHub''), []))
   \<and> (\<forall>chunks oversized r err acks i.
         GetChunkedMessages messages (chunkMessageLimit eht) (eh_messageByteLimit eht)
           (chunkByteLimit eht) = (chunks, oversized)
         \<and> i < length chunks \<and> client eht i (chunks ! i) = Some e
         \<and> EventHubTarget_Write eht messages = (r, err, acks) \<longrightarrow>
           set (chunks ! i) \<subseteq> set (FailedMsgs r)
         \<and> (\<exists>es. err = Some (Wrap (Multi es) ''Error writing messages to EventHub'')
                 \<and> Wrap e ''Failed to send message batch to EventHub'' \<in> set es))"
proof (intro conjI allI impI)
  assume "client eht k chunk = Some e"
  then show "EventHubTarget_process eht k chunk
        = (NewTargetWriteResult [] chunk [] [],
           Some (Wrap e ''Failed to send message batch to EventHub''), [])"
    by (simp add: EventHubTarget_process_def)
next
  fix chunks oversized r err acks i
  assume a: "GetChunkedMessages messages (chunkMessageLimit eht) (eh_messageByteLimit eht)
           (chunkByteLimit eht) = (chunks, oversized)
         \<and> i < length chunks \<and> client eht i (chunks ! i) = Some e
         \<and> EventHubTarget_Write eht messages = (r, err, acks)"
  then have g: "GetChunkedMessages messages (chunkMessageLimit eht) (eh_messageByteLimit eht)
           (chunkByteLimit eht) = (chunks, oversized)"
    and w: "EventHubTarget_Write eht messages = (r, err, acks)"
    and i: "i < length chunks" "client eht (0 + i) (chunks ! i) = Some e" by simp_all
  note c = EventHubTarget_Write_char[OF g w]
  note f = failing_chunk_recorded[OF i]
  from c f show "set (chunks ! i) \<subseteq> set (FailedMsgs r)" by simp
  from f have "chunk_errors eht 0 chunks \<noteq> []" by auto
  with c f show "\<exists>es. err = Some (Wrap (Multi es) ''Error writing messages to EventHub'')
                 \<and> Wrap e ''Failed to send message batch to EventHub'' \<in> set es"
    by simp
qed

text \<open>The second chunk of the batch of three fails.\<close>

theorem eventhub_failed_chunk_all_failed_witness:
  "client ex_eventhub 1 [ex_msg ''k2'' 3 ''r2''] = Some (Transport 9)
   \<and> EventHubTarget_process ex_eventhub 1 [ex_msg ''k2'' 3 ''r2'']
       = (NewTargetWriteResult [] [ex_msg ''k2'' 3 ''r2''] [] [],
          Some (Wrap (Transport 9) ''Failed to send message batch to EventHub''), [])
   \<and> GetChunkedMessages ex_batch (chunkMessageLimit ex_eventhub)
          (eh_messageByteLimit ex_eventhub) (chunkByteLimit ex_eventhub)
        = ([[ex_msg ''k1'' 2 ''r1''], [ex_msg ''k2'' 3 ''r2'']], [ex_msg ''k3'' 12 ''r3''])
   \<and> set [ex_msg ''k2'' 3 ''r2'']
        \<subseteq> set (FailedMsgs (fst (EventHubTarget_Write ex_eventhub ex_batch)))
   \<and> (\<exists>es. fst (snd (EventHubTarget_Write ex_eventhub ex_batch))
               = Some (Wrap (Multi es) ''Error writing messages to EventHub'')
            \<and> Wrap (Transport 9) ''Failed to send message batch to EventHub'' \<in> set es)"
proof -
  have f: "client ex_eventhub 1 [ex_msg ''k2'' 3 ''r2''] = Some (Transport 9)"
    by (simp add: ex_eventhub_def)
  have g: "GetChunkedMessages ex_batch (chunkMessageLimit ex_eventhub)
          (eh_messageByteLimit ex_eventhub) (chunkByteLimit ex_eventhub)
        = ([[ex_msg ''k1'' 2 ''r1''], [ex_msg ''k2'' 3 ''r2'']], [ex_msg ''k3'' 12 ''r3''])"
    using ex_chunks by (simp add: ex_eventhub_def)
  obtain r err acks where w: "EventHubTarget_Write ex_eventhub ex_batch = (r, err, acks)"
    by (metis prod_cases3)
  note t = eventhub_failed_chunk_all_failed[of ex_eventhub 1 "[ex_msg ''k2'' 3 ''r2'']"
             "Transport 9" ex_batch]
  from t f have p: "EventHubTarget_process ex_eventhub 1 [ex_msg ''k2'' 3 ''r2'']
       = (NewTargetWriteResult [] [ex_msg ''k2'' 3 ''r2''] [] [],
          Some (Wrap (Transport 9) ''Failed to send message batch to EventHub''), [])"
    by blast
  have i: "(1::nat) < length [[ex_msg ''k1'' 2 ''r1''], [ex_msg ''k2'' 3 ''r2'']]"
    "client ex_eventhub 1 ([[ex_msg ''k1'' 2 ''r1''], [ex_msg ''k2'' 3 ''r2'']] ! 1)
       = Some (Transport 9)"
    using f by simp_all
  from t g i w have
    "set ([[ex_msg ''k1'' 2 ''r1''], [ex_msg ''k2'' 3 ''r2'']] ! 1) \<subseteq> set (FailedMsgs r)
     \<and> (\<exists>es. err = Some (Wrap (Multi es) ''Error writing messages to EventHub'')
            \<and> Wrap (Transport 9) ''Failed to send message batch to EventHub'' \<in> set es)"
    by blast
  with w f p g show ?thesis by simp
qed

subsection \<open>Acknowledgments\<close>




section \<open>Properties of NewKafkaTarget\<close>

lemma supportedVersion_loop_iff: "supportedVersion_loop vs v \<longleftrightarrow> v \<in> set vs"
  by (induction vs) auto

text \<open>
  Claim C9. For a configuration whose \<^verbatim>\<open>TargetVersion\<close> is not empty and is not a
  supported Kafka version (it does not parse, or it is not in the table), or whose
  \<^verbatim>\<open>EnableSASL\<close> is set with an algorithm other than "sha256", "sha512" and
  "plaintext", \<^verbatim>\<open>NewKafkaTarget\<close> returns a nil target and an error and has called no
  producer constructor.
\<close>

theorem kafka_config_errors_fail_fast:
  "(TargetVersion cfg \<noteq> [] \<and> unsupported_version env (TargetVersion cfg))
   \<or> (EnableSASL cfg \<and> SASLAlgorithm cfg \<noteq> ''sha256'' \<and> SASLAlgorithm cfg \<noteq> ''sha512''
        \<and> SASLAlgorithm cfg \<noteq> ''plaintext'')
   \<Longrightarrow> \<exists>e. NewKafkaTarget env cfg = (None, Some e, [])"
proof (cases "snd (getKafkaVersion env (TargetVersion cfg))")
  case (Some e)
  then show ?thesis
    by (cases "getKafkaVersion env (TargetVersion cfg)") (simp add: NewKafkaTarget_def)
next
  case None
  assume a: "(TargetVersion cfg \<noteq> [] \<and> unsupported_version env (TargetVersion cfg))
   \<or> (EnableSASL cfg \<and> SASLAlgorithm cfg \<noteq> ''sha256'' \<and> SASLAlgorithm cfg \<noteq> ''sha512''
        \<and> SASLAlgorithm cfg \<noteq> ''plaintext'')"
  from None have "\<not> (TargetVersion cfg \<noteq> [] \<and> unsupported_version env (TargetVersion cfg))"
    by (auto simp: getKafkaVersion_def unsupported_version_def supportedVersion_loop_iff
          split: sum.splits if_splits)
  with a have "EnableSASL cfg \<and> SASLAlgorithm cfg \<noteq> ''sha256'' \<and> SASLAlgorithm cfg \<noteq> ''sha512''
        \<and> SASLAlgorithm cfg \<noteq> ''plaintext''" by blast
  with None show ?thesis
    by (cases "getKafkaVersion env (TargetVersion cfg)") (simp add: NewKafkaTarget_def)
qed

text \<open>A version outside the table, and the algorithm "md5".\<close>

theorem kafka_config_errors_fail_fast_witness:
  "TargetVersion (ex_kafka_config ''9.9.9'' False []) \<noteq> []
   \<and> unsupported_version ex_kafka_env (TargetVersion (ex_kafka_config ''9.9.9'' False []))
   \<and> (\<exists>e. NewKafkaTarget ex_kafka_env (ex_kafka_config ''9.9.9'' False [])
             = (None, Some e, []))
   \<and> EnableSASL (ex_kafka_config ''2.1.0'' True ''md5'')
   \<and> SASLAlgorithm (ex_kafka_config ''2.1.0'' True ''md5'') = ''md5''
   \<and> (\<exists>e. NewKafkaTarget ex_kafka_env (ex_kafka_config ''2.1.0'' True ''md5'')
             = (None, Some e, []))"
proof -
  have v: "TargetVersion (ex_kafka_config ''9.9.9'' False []) \<noteq> []"
    "unsupported_version ex_kafka_env (TargetVersion (ex_kafka_config ''9.9.9'' False []))"
    by (simp_all add: ex_kafka_config_def ex_kafka_env_def unsupported_version_def)
  have s: "EnableSASL (ex_kafka_config ''2.1.0'' True ''md5'')"
    "SASLAlgorithm (ex_kafka_config ''2.1.0'' True ''md5'') = ''md5''"
    by (simp_all add: ex_kafka_config_def)
  from v kafka_config_errors_fail_fast[of "ex_kafka_config ''9.9.9'' False []" ex_kafka_env]
  have "\<exists>e. NewKafkaTarget ex_kafka_env (ex_kafka_config ''9.9.9'' False [])
             = (None, Some e, [])" by blast
  moreover
  from s kafka_config_errors_fail_fast[of "ex_kafka_config ''2.1.0'' True ''md5''" ex_kafka_env]
  have "\<exists>e. NewKafkaTarget ex_kafka_env (ex_kafka_config ''2.1.0'' True ''md5'')
             = (None, Some e, [])" by simp
  ultimately show ?thesis using v s by blast
qed

section \<open>Properties of the SQS source: process\<close>

lemma build_messages_length [simp]:
  "length (build_messages t uuids i msgs) = length msgs"
  by (induction msgs arbitrary: i) simp_all

lemma build_messages_nth:
  "j < length msgs \<Longrightarrow>
     build_messages t uuids i msgs ! j = build_message t (uuids (i + j)) (msgs ! j)"
proof (induction msgs arbitrary: i j)
  case Nil
  then show ?case by simp
next
  case (Cons m ms)
  then show ?case by (cases j) simp_all
qed

text \<open>
  Claim C10. Once \<^verbatim>\<open>ReceiveMessage\<close> has answered, \<^verbatim>\<open>process\<close> returns nil and
  forwards one message per SQS message, in order, each with the body and the time of the
  pull; a message whose \<^verbatim>\<open>SentTimestamp\<close> attribute is absent or does not parse as an
  integer gets \<^verbatim>\<open>TimeCreated\<close> equal to \<^verbatim>\<open>TimePulled\<close>.
\<close>

theorem unusable_timestamp_falls_back_to_pull_time:
  "\<exists>messages logged.
      process (Inr sqsMessages) timePulled uuids target = (None, Some messages, logged)
    \<and> length messages = length sqsMessages
    \<and> (\<forall>j < length sqsMessages.
          Data (messages ! j) = Body (sqsMessages ! j)
        \<and> TimePulled (messages ! j) = timePulled
        \<and> (timestamp_unusable (sqsMessages ! j) \<longrightarrow> TimeCreated (messages ! j) = timePulled))"
proof -
  let ?ms = "build_messages timePulled uuids 0 sqsMessages"
  have "\<exists>logged. process (Inr sqsMessages) timePulled uuids target
          = (None, Some ?ms, logged)"
    by (simp add: process_def Let_def split: option.splits)
  moreover have "\<forall>j < length sqsMessages.
          Data (?ms ! j) = Body (sqsMessages ! j)
        \<and> TimePulled (?ms ! j) = timePulled
        \<and> (timestamp_unusable (sqsMessages ! j) \<longrightarrow> TimeCreated (?ms ! j) = timePulled)"
    by (auto simp: build_messages_nth build_message_def timestamp_unusable_def
          split: option.splits)
  ultimately show ?thesis by auto
qed

lemma ex_unusable:
  "timestamp_unusable (ex_sqs_batch ! 0)" "timestamp_unusable (ex_sqs_batch ! 1)"
  "\<not> timestamp_unusable (ex_sqs_batch ! 2)"
  by (simp_all add: timestamp_unusable_def ex_sqs_batch_def SentTimestamp_def ParseInt_def
        digit_value_def Let_def)

text \<open>A message without the attribute and one with the attribute "12x4".\<close>

theorem unusable_timestamp_falls_back_to_pull_time_witness:
  "timestamp_unusable (ex_sqs_batch ! 0) \<and> timestamp_unusable (ex_sqs_batch ! 1)
   \<and> (\<exists>messages logged.
         process (Inr ex_sqs_batch) 7000000000 (\<lambda>i. ''u'') (\<lambda>ms. Some (Transport 1))
           = (None, Some messages, logged)
       \<and> length messages = 3
       \<and> TimeCreated (messages ! 0) = 7000000000
       \<and> TimeCreated (messages ! 1) = 7000000000)"
proof -
  have len: "length ex_sqs_batch = 3" by (simp add: ex_sqs_batch_def)
  from unusable_timestamp_falls_back_to_pull_time
         [of ex_sqs_batch 7000000000 "\<lambda>i. ''u''" "\<lambda>ms. Some (Transport 1)"]
  obtain messages logged where
    p: "process (Inr ex_sqs_batch) 7000000000 (\<lambda>i. ''u'') (\<lambda>ms. Some (Transport 1))
          = (None, Some messages, logged)"
    and l: "length messages = length ex_sqs_batch"
    and a: "\<forall>j < length ex_sqs_batch.
          Data (messages ! j) = Body (ex_sqs_batch ! j)
        \<and> TimePulled (messages ! j) = 7000000000
        \<and> (timestamp_unusable (ex_sqs_batch ! j) \<longrightarrow> TimeCreated (messages ! j) = 7000000000)"
    by blast
  from a len ex_unusable(1) have "TimeCreated (messages ! 0) = 7000000000" by simp
  moreover from a len ex_unusable(2) have "TimeCreated (messages ! 1) = 7000000000" by simp
  ultimately show ?thesis using p l len ex_unusable by auto
qed

section \<open>Properties of the SQS source: Read and Stop\<close>

subsection \<open>Invariants of the transition system\<close>

lemma filter_update_length:
  "i < length ws \<Longrightarrow>
     length (filter P (ws[i := w])) + (if P (ws ! i) then 1 else 0)
       = length (filter P ws) + (if P w then 1 else 0)"
proof (induction ws arbitrary: i)
  case Nil
  then show ?case by simp
next
  case (Cons a ws)
  then show ?case by (cases i) auto
qed

lemma in_flight_update:
  "i < length (workers s) \<Longrightarrow>
     length (filter holds_slot ((workers s)[i := w])) + (if holds_slot (workers s ! i) then 1 else 0)
       = in_flight s + (if holds_slot w then 1 else 0)"
  unfolding in_flight_def by (rule filter_update_length)

lemma run_process_cases:
  obtains (fetch_failed) e where
      "ReceiveMessage env (processCalls s) = Inl e"
      "run_process env i s =
         s\<lparr>workers := (workers s)[i := Posting (Wrap e ''Failed to get message from SQS queue'')],
           processCalls := Suc (processCalls s)\<rparr>"
  | (delivered) sqsMessages where
      "ReceiveMessage env (processCalls s) = Inr sqsMessages"
      "run_process env i s =
         s\<lparr>workers := (workers s)[i := Releasing],
           processCalls := Suc (processCalls s),
           deliveries := Suc (deliveries s),
           forwarded := forwarded s
              @ [build_messages (timeNow env (processCalls s)) (uuidNewV4 env (processCalls s))
                   0 sqsMessages],
           logged := logged s
              @ (case WriteToTarget env (deliveries s)
                        (build_messages (timeNow env (processCalls s))
                           (uuidNewV4 env (processCalls s)) 0 sqsMessages) of
                   None \<Rightarrow> [] | Some e \<Rightarrow> [e])\<rparr>"
proof (cases "ReceiveMessage env (processCalls s)")
  case (Inl e)
  then show ?thesis
    by (intro fetch_failed[of e]) (simp_all add: run_process_def process_def)
next
  case (Inr ms)
  then show ?thesis
    by (intro delivered[of ms]) (simp_all add: run_process_def process_def Let_def split: option.splits)
qed

lemma slots_inv_step:
  assumes "slots_inv N s" and "step N env a s = Some s'"
  shows "slots_inv N s'"
proof (cases a)
  case (Process i)
  with assms(2) have i: "i < length (workers s)" "workers s ! i = Running"
    and s': "s' = run_process env i s"
    by (auto simp: step_def split: if_splits)
  show ?thesis
  proof (cases rule: run_process_cases[of env s i])
    case (fetch_failed e)
    with in_flight_update[OF i(1), of "Posting (Wrap e ''Failed to get message from SQS queue'')"]
      i(2) assms(1) s'
    show ?thesis by (simp add: slots_inv_def in_flight_def)
  next
    case (delivered ms)
    with in_flight_update[OF i(1), of Releasing] i(2) assms(1) s'
    show ?thesis by (simp add: slots_inv_def in_flight_def)
  qed
next
  case (Post i)
  with assms(2) obtain e where i: "i < length (workers s)" "workers s ! i = Posting e"
    and s': "s' = s\<lparr>workers := (workers s)[i := Releasing],
                     errq := errq s @ [e], posted := posted s @ [e]\<rparr>"
    by (auto simp: step_def split: if_splits worker.splits)
  with in_flight_update[OF i(1), of Releasing] assms(1)
  show ?thesis by (simp add: slots_inv_def in_flight_def)
next
  case (Release i)
  with assms(2) have i: "i < length (workers s)" "workers s ! i = Releasing" "0 < throttle s"
    and s': "s' = s\<lparr>workers := (workers s)[i := Exiting], throttle := throttle s - 1\<rparr>"
    by (auto simp: step_def split: if_splits)
  with in_flight_update[OF i(1), of Exiting] assms(1)
  show ?thesis by (auto simp: slots_inv_def in_flight_def split: if_splits)
next
  case (Done i)
  with assms(2) have i: "i < length (workers s)" "workers s ! i = Exiting"
    and s': "s' = s\<lparr>workers := (workers s)[i := Finished]\<rparr>"
    by (auto simp: step_def split: if_splits)
  with in_flight_update[OF i(1), of Finished] assms(1)
  show ?thesis by (simp add: slots_inv_def in_flight_def)
qed (use assms in \<open>auto simp: step_def slots_inv_def in_flight_def
        split: if_splits option.splits list.splits\<close>)

lemma slots_inv_init: "slots_inv N init_state"
  by (simp add: slots_inv_def init_state_def in_flight_def)

lemma exec_invariant:
  assumes "\<And>s a s'. P s \<Longrightarrow> step N env a s = Some s' \<Longrightarrow> P s'"
  shows "P s \<Longrightarrow> exec N env sched s = Some s' \<Longrightarrow> P s'"
proof (induction sched arbitrary: s)
  case Nil
  then show ?case by simp
next
  case (Cons a sched)
  then show ?case using assms by (auto split: option.splits)
qed

lemma slots_inv_reachable:
  assumes "exec N env sched init_state = Some s"
  shows "slots_inv N s"
  by (rule exec_invariant[where P = "slots_inv N", OF slots_inv_step slots_inv_init assms])

lemma step_cases [consumes 1, case_names StopCall ReadFail ReadStart SelectExit SelectError
    SelectDefault Acquire Go Wait FetchFailed Delivered Post Release Done]:
  assumes "step N env a s = Some s'"
  obtains
    "a = StopCall" "s' = s\<lparr>stoppers := Suc (stoppers s)\<rparr>"
  | e where "a = ReadStart" "pc s = NotStarted" "GetQueueUrl env = Some e"
      "s' = s\<lparr>pc := Returned (Some (Wrap e ''Failed to get SQS queue URL''))\<rparr>"
  | "a = ReadStart" "pc s = NotStarted" "GetQueueUrl env = None" "s' = s\<lparr>pc := AtSelect\<rparr>"
  | "a = SelectExit" "pc s = AtSelect" "0 < stoppers s"
      "s' = s\<lparr>pc := AtWait, stoppers := stoppers s - 1, stopsReturned := Suc (stopsReturned s)\<rparr>"
  | e rest where "a = SelectError" "pc s = AtSelect" "errq s = e # rest"
      "s' = s\<lparr>pc := AtWait, processErr := Some e, errq := rest\<rparr>"
  | "a = SelectDefault" "pc s = AtSelect" "stoppers s = 0" "errq s = []"
      "s' = s\<lparr>pc := AtThrottle\<rparr>"
  | "a = Acquire" "pc s = AtThrottle" "throttle s < N"
      "s' = s\<lparr>pc := AtGo, throttle := Suc (throttle s)\<rparr>"
  | "a = Go" "pc s = AtGo" "s' = s\<lparr>pc := AtSelect, workers := workers s @ [Running]\<rparr>"
  | "a = Wait" "pc s = AtWait" "all_finished s" "s' = s\<lparr>pc := Returned (processErr s)\<rparr>"
  | i e where "a = Process i" "i < length (workers s)" "workers s ! i = Running"
      "ReceiveMessage env (processCalls s) = Inl e"
      "s' = s\<lparr>workers := (workers s)[i := Posting (Wrap e ''Failed to get message from SQS queue'')],
               processCalls := Suc (processCalls s)\<rparr>"
  | i sqsMessages where "a = Process i" "i < length (workers s)" "workers s ! i = Running"
      "ReceiveMessage env (processCalls s) = Inr sqsMessages"
      "s' = s\<lparr>workers := (workers s)[i := Releasing],
               processCalls := Suc (processCalls s),
               deliveries := Suc (deliveries s),
               forwarded := forwarded s
                 @ [build_messages (timeNow env (processCalls s))
                      (uuidNewV4 env (processCalls s)) 0 sqsMessages],
               logged := logged s
                 @ (case WriteToTarget env (deliveries s)
                           (build_messages (timeNow env (processCalls s))
                              (uuidNewV4 env (processCalls s)) 0 sqsMessages) of
                      None \<Rightarrow> [] | Some e \<Rightarrow> [e])\<rparr>"
  | i e where "a = Post i" "i < length (workers s)" "workers s ! i = Posting e"
      "length (errq s) < N"
      "s' = s\<lparr>workers := (workers s)[i := Releasing], errq := errq s @ [e],
               posted := posted s @ [e]\<rparr>"
  | i where "a = Release i" "i < length (workers s)" "workers s ! i = Releasing"
      "0 < throttle s"
      "s' = s\<lparr>workers := (workers s)[i := Exiting], throttle := throttle s - 1\<rparr>"
  | i where "a = Done i" "i < length (workers s)" "workers s ! i = Exiting"
      "s' = s\<lparr>workers := (workers s)[i := Finished]\<rparr>"
proof (cases a)
  case StopCall
  with assms that(1) show ?thesis by (simp add: step_def)
next
  case ReadStart
  with assms that(2,3) show ?thesis
    by (cases "GetQueueUrl env") (auto simp: step_def split: if_splits)
next
  case SelectExit
  with assms that(4) show ?thesis by (auto simp: step_def split: if_splits)
next
  case SelectError
  with assms that(5) show ?thesis
    by (cases "errq s") (auto simp: step_def split: if_splits)
next
  case SelectDefault
  with assms that(6) show ?thesis by (auto simp: step_def split: if_splits)
next
  case Acquire
  with assms that(7) show ?thesis by (auto simp: step_def split: if_splits)
next
  case Go
  with assms that(8) show ?thesis by (auto simp: step_def split: if_splits)
next
  case Wait
  with assms that(9) show ?thesis by (auto simp: step_def split: if_splits)
next
  case (Process i)
  with assms have i: "i < length (workers s)" "workers s ! i = Running"
    and s': "s' = run_process env i s"
    by (auto simp: step_def split: if_splits)
  show ?thesis
  proof (cases rule: run_process_cases[of env s i])
    case (fetch_failed e)
    with that(10)[of i e] Process i s' show ?thesis by simp
  next
    case (delivered ms)
    with that(11)[of i ms] Process i s' show ?thesis by simp
  qed
next
  case (Post i)
  with assms that(12)[of i] show ?thesis
    by (auto simp: step_def split: if_splits worker.splits)
next
  case (Release i)
  with assms that(13)[of i] show ?thesis by (auto simp: step_def split: if_splits)
next
  case (Done i)
  with assms that(14)[of i] show ?thesis by (auto simp: step_def split: if_splits)
qed

lemma hist_inv_step:
  assumes "hist_inv s" and "step N env a s = Some s'"
  shows "hist_inv s'"
  using assms(2,1)
  by (cases rule: step_cases) (auto simp: hist_inv_def split: option.splits)

lemma finished_no_worker:
  "all_finished s \<Longrightarrow> i < length (workers s) \<Longrightarrow> workers s ! i = Finished"
  by (simp add: all_finished_def list_all_length)

lemma not_returned_while_working:
  assumes "ret_inv env s" and "i < length (workers s)" and "workers s ! i \<noteq> Finished"
  shows "pc s \<noteq> Returned r"
  using assms finished_no_worker[of s i] by (auto simp: ret_inv_def)

lemma ret_inv_step:
  assumes "ret_inv env s" and "hist_inv s" and "step N env a s = Some s'"
  shows "ret_inv env s'"
  using assms(3,1,2)
proof (cases rule: step_cases)
  case (FetchFailed i e)
  with not_returned_while_working[OF assms(1), of i] show ?thesis by (simp add: ret_inv_def)
next
  case (Delivered i ms)
  with not_returned_while_working[OF assms(1), of i] show ?thesis by (simp add: ret_inv_def)
next
  case (Post i e)
  with not_returned_while_working[OF assms(1), of i] show ?thesis by (simp add: ret_inv_def)
next
  case (Release i)
  with not_returned_while_working[OF assms(1), of i] show ?thesis by (simp add: ret_inv_def)
next
  case (Done i)
  with not_returned_while_working[OF assms(1), of i] show ?thesis by (simp add: ret_inv_def)
qed (auto simp: ret_inv_def hist_inv_def all_finished_def)

lemma fetch_inv_step:
  assumes "fetch_inv env s" and "step N env a s = Some s'"
  shows "fetch_inv env s'"
  using assms(2,1)
proof (cases rule: step_cases)
  case (FetchFailed i e)
  then have "is_fetch_error env (Wrap e ''Failed to get message from SQS queue'')"
    by (auto simp: is_fetch_error_def)
  with FetchFailed assms(1) show ?thesis
    by (auto simp: fetch_inv_def dest!: set_update_subset_insert[THEN subsetD])
next
  case (Delivered i ms)
  with assms(1) show ?thesis
    by (auto simp: fetch_inv_def dest!: set_update_subset_insert[THEN subsetD])
next
  case (Post i e)
  then have "Posting e \<in> set (workers s)" by (metis nth_mem)
  with Post assms(1) show ?thesis
    by (auto simp: fetch_inv_def dest!: set_update_subset_insert[THEN subsetD])
next
  case (Release i)
  with assms(1) show ?thesis
    by (auto simp: fetch_inv_def dest!: set_update_subset_insert[THEN subsetD])
next
  case (Done i)
  with assms(1) show ?thesis
    by (auto simp: fetch_inv_def dest!: set_update_subset_insert[THEN subsetD])
qed (auto simp: fetch_inv_def)

lemma stop_inv_step:
  assumes "stop_inv s" and "step N env a s = Some s'"
  shows "stop_inv s'"
  using assms(2,1)
  by (cases rule: step_cases) (auto simp: stop_inv_def)

lemma hist_inv_reachable:
  assumes "exec N env sched init_state = Some s"
  shows "hist_inv s"
proof (rule exec_invariant[where P = hist_inv, OF _ _ assms])
  show "hist_inv init_state" by (simp add: hist_inv_def init_state_def)
qed (rule hist_inv_step)

lemma ret_inv_reachable:
  assumes "exec N env sched init_state = Some s"
  shows "ret_inv env s"
proof -
  have "ret_inv env s \<and> hist_inv s"
  proof (rule exec_invariant[where P = "\<lambda>s. ret_inv env s \<and> hist_inv s", OF _ _ assms])
    show "ret_inv env init_state \<and> hist_inv init_state"
      by (simp add: ret_inv_def hist_inv_def init_state_def)
  qed (blast intro: ret_inv_step hist_inv_step)
  then show ?thesis ..
qed

lemma fetch_inv_reachable:
  assumes "exec N env sched init_state = Some s"
  shows "fetch_inv env s"
proof (rule exec_invariant[where P = "fetch_inv env", OF _ _ assms])
  show "fetch_inv env init_state" by (simp add: fetch_inv_def init_state_def)
qed (rule fetch_inv_step)

lemma stop_inv_reachable:
  assumes "exec N env sched init_state = Some s"
  shows "stop_inv s"
proof (rule exec_invariant[where P = stop_inv, OF _ _ assms])
  show "stop_inv init_state" by (simp add: stop_inv_def init_state_def)
qed (rule stop_inv_step)

lemma stop_count:
  "exec N env sched s = Some s' \<Longrightarrow>
     stoppers s' + stopsReturned s' = stoppers s + stopsReturned s + count_list sched StopCall"
proof (induction sched arbitrary: s)
  case Nil
  then show ?case by simp
next
  case (Cons a sched)
  from Cons.prems obtain s1 where st: "step N env a s = Some s1"
    and ex: "exec N env sched s1 = Some s'"
    by (auto split: option.splits)
  from st have "stoppers s1 + stopsReturned s1
                  = stoppers s + stopsReturned s + (if a = StopCall then 1 else 0)"
    by (cases rule: step_cases) auto
  with Cons.IH[OF ex] show ?case by simp
qed

lemma not_started_stays:
  "exec N env sched s = Some s' \<Longrightarrow> pc s = NotStarted \<Longrightarrow> workers s = []
   \<Longrightarrow> ReadStart \<notin> set sched
   \<Longrightarrow> pc s' = NotStarted \<and> workers s' = [] \<and> stopsReturned s' = stopsReturned s"
proof (induction sched arbitrary: s)
  case Nil
  then show ?case by simp
next
  case (Cons a sched)
  from Cons.prems obtain s1 where st: "step N env a s = Some s1"
    and ex: "exec N env sched s1 = Some s'"
    by (auto split: option.splits)
  from st Cons.prems have "pc s1 = NotStarted \<and> workers s1 = [] \<and> stopsReturned s1 = stopsReturned s"
    by (cases rule: step_cases) auto
  with Cons.IH[OF ex] Cons.prems show ?case by simp
qed

lemma pending_le_in_flight: "pending s \<le> in_flight s"
proof -
  have "length (filter can_post ws) \<le> length (filter holds_slot ws)" for ws
  proof (induction ws)
    case Nil
    then show ?case by simp
  next
    case (Cons w ws)
    then show ?case by (cases w) simp_all
  qed
  then show ?thesis by (simp add: pending_def in_flight_def)
qed

lemma pending_update:
  "i < length (workers s) \<Longrightarrow>
     length (filter can_post ((workers s)[i := w])) + (if can_post (workers s ! i) then 1 else 0)
       = pending s + (if can_post w then 1 else 0)"
  unfolding pending_def by (rule filter_update_length)

lemma cap_inv_step:
  assumes "cap_inv N s" and "slots_inv N s" and "hist_inv s" and "step N env a s = Some s'"
  shows "cap_inv N s'"
  using assms(4)
proof (cases rule: step_cases)
  case SelectDefault
  with pending_le_in_flight[of s] assms(2) have "pending s \<le> N"
    by (simp add: slots_inv_def)
  with SelectDefault assms(1,3) show ?thesis
    by (auto simp: cap_inv_def pending_def hist_inv_def)
next
  case (FetchFailed i e)
  with pending_update[OF FetchFailed(2), of "Posting (Wrap e ''Failed to get message from SQS queue'')"]
    assms(1)
  show ?thesis by (auto simp: cap_inv_def pending_def)
next
  case (Delivered i ms)
  with pending_update[OF Delivered(2), of Releasing] assms(1)
  show ?thesis by (auto simp: cap_inv_def pending_def)
next
  case (Post i e)
  with pending_update[OF Post(2), of Releasing] assms(1)
  show ?thesis by (auto simp: cap_inv_def pending_def)
next
  case (Release i)
  with pending_update[OF Release(2), of Exiting] assms(1)
  show ?thesis by (auto simp: cap_inv_def pending_def)
next
  case (Done i)
  with pending_update[OF Done(2), of Finished] assms(1)
  show ?thesis by (auto simp: cap_inv_def pending_def)
qed (use assms(1,3) in \<open>auto simp: cap_inv_def pending_def hist_inv_def\<close>)

lemma cap_inv_reachable:
  assumes "exec N env sched init_state = Some s"
  shows "cap_inv N s"
proof -
  have "cap_inv N s \<and> slots_inv N s \<and> hist_inv s"
  proof (rule exec_invariant[where P = "\<lambda>s. cap_inv N s \<and> slots_inv N s \<and> hist_inv s",
           OF _ _ assms])
    show "cap_inv N init_state \<and> slots_inv N init_state \<and> hist_inv init_state"
      by (simp add: cap_inv_def slots_inv_def hist_inv_def init_state_def in_flight_def
            pending_def)
  qed (blast intro: cap_inv_step slots_inv_step hist_inv_step)
  then show ?thesis by simp
qed

lemma work_left_update:
  "i < length (workers s) \<Longrightarrow>
     sum_list (map rank ((workers s)[i := w])) + rank (workers s ! i) = work_left s + rank w"
proof -
  have "i < length ws \<Longrightarrow> sum_list (map rank (ws[i := w])) + rank (ws ! i)
          = sum_list (map rank ws) + rank w" for ws
  proof (induction ws arbitrary: i)
    case Nil
    then show ?case by simp
  next
    case (Cons a ws)
    then show ?case by (cases i) auto
  qed
  then show "i < length (workers s) \<Longrightarrow> ?thesis" by (simp add: work_left_def)
qed

lemma unfinished_worker:
  assumes "\<not> all_finished s"
  obtains i where "i < length (workers s)" "workers s ! i \<noteq> Finished"
  using assms by (auto simp: all_finished_def list_all_length)

lemma holds_slot_in_flight_pos:
  "i < length (workers s) \<Longrightarrow> holds_slot (workers s ! i) \<Longrightarrow> 0 < in_flight s"
  by (auto simp: in_flight_def filter_empty_conv intro!: length_pos_if_in_set nth_mem
      simp flip: length_greater_0_conv)

lemma can_post_pending_pos:
  "i < length (workers s) \<Longrightarrow> can_post (workers s ! i) \<Longrightarrow> 0 < pending s"
  by (auto simp: pending_def filter_empty_conv intro!: length_pos_if_in_set nth_mem
      simp flip: length_greater_0_conv)

lemma draining_worker_step:
  assumes d: "draining N e s" and nf: "\<not> all_finished s"
  obtains a s1 where "a \<noteq> StopCall" "step N env a s = Some s1" "draining N e s1"
    "work_left s1 < work_left s"
proof -
  from nf obtain i where i: "i < length (workers s)" "workers s ! i \<noteq> Finished"
    by (rule unfinished_worker)
  from d have inv: "slots_inv N s" "cap_inv N s" "hist_inv s"
    and pc: "pc s = AtWait" "processErr s = Some e"
    by (simp_all add: draining_def)
  have keep: "draining N e s1" if st: "step N env a s = Some s1"
    and same: "pc s1 = pc s" "processErr s1 = processErr s" for a s1
    using slots_inv_step[OF inv(1) st] cap_inv_step[OF inv(2,1,3) st] hist_inv_step[OF inv(3) st]
      same pc by (simp add: draining_def)
  show ?thesis
  proof (cases "workers s ! i")
    case Running
    let ?s1 = "run_process env i s"
    from i Running have st: "step N env (Process i) s = Some ?s1" by (simp add: step_def)
    have "pc ?s1 = pc s \<and> processErr ?s1 = processErr s \<and> work_left ?s1 < work_left s"
    proof (cases rule: run_process_cases[of env s i])
      case (fetch_failed e')
      with work_left_update[OF i(1), of "Posting (Wrap e' ''Failed to get message from SQS queue'')"]
        Running show ?thesis by (simp add: work_left_def)
    next
      case (delivered ms)
      with work_left_update[OF i(1), of Releasing] Running show ?thesis
        by (simp add: work_left_def)
    qed
    with keep[OF st] st show ?thesis by (intro that[of "Process i" ?s1]) simp_all
  next
    case (Posting x)
    with i can_post_pending_pos[of i s] have "0 < pending s" by simp
    with inv(2) pc have room: "length (errq s) < N" by (simp add: cap_inv_def)
    let ?s1 = "s\<lparr>workers := (workers s)[i := Releasing], errq := errq s @ [x],
                  posted := posted s @ [x]\<rparr>"
    from i Posting room have st: "step N env (Post i) s = Some ?s1" by (simp add: step_def)
    from work_left_update[OF i(1), of Releasing] Posting
    have "work_left ?s1 < work_left s" by (simp add: work_left_def)
    with keep[OF st] st show ?thesis by (intro that[of "Post i" ?s1]) simp_all
  next
    case Releasing
    with i holds_slot_in_flight_pos[of i s] have "0 < in_flight s" by simp
    with inv(1) pc have tok: "0 < throttle s" by (simp add: slots_inv_def)
    let ?s1 = "s\<lparr>workers := (workers s)[i := Exiting], throttle := throttle s - 1\<rparr>"
    from i Releasing tok have st: "step N env (Release i) s = Some ?s1" by (simp add: step_def)
    from work_left_update[OF i(1), of Exiting] Releasing
    have "work_left ?s1 < work_left s" by (simp add: work_left_def)
    with keep[OF st] st show ?thesis by (intro that[of "Release i" ?s1]) simp_all
  next
    case Exiting
    let ?s1 = "s\<lparr>workers := (workers s)[i := Finished]\<rparr>"
    from i Exiting have st: "step N env (Done i) s = Some ?s1" by (simp add: step_def)
    from work_left_update[OF i(1), of Finished] Exiting
    have "work_left ?s1 < work_left s" by (simp add: work_left_def)
    with keep[OF st] st show ?thesis by (intro that[of "Done i" ?s1]) simp_all
  next
    case Finished
    with i show ?thesis by simp
  qed
qed

lemma draining_returns:
  "draining N e s \<Longrightarrow>
     \<exists>rest s'. StopCall \<notin> set rest \<and> exec N env rest s = Some s'
              \<and> pc s' = Returned (Some e)"
proof (induction "work_left s" arbitrary: s rule: less_induct)
  case less
  show ?case
  proof (cases "all_finished s")
    case True
    with less.prems have "step N env Wait s = Some (s\<lparr>pc := Returned (Some e)\<rparr>)"
      by (simp add: step_def draining_def)
    then have "StopCall \<notin> set [Wait] \<and> exec N env [Wait] s = Some (s\<lparr>pc := Returned (Some e)\<rparr>)
        \<and> pc (s\<lparr>pc := Returned (Some e)\<rparr>) = Returned (Some e)"
      by simp
    then show ?thesis by blast
  next
    case False
    from draining_worker_step[OF less.prems False, of env] obtain a s1 where
      a: "a \<noteq> StopCall" "step N env a s = Some s1" "draining N e s1"
         "work_left s1 < work_left s" by blast
    from less.hyps[OF a(4,3)] obtain rest s' where
      r: "StopCall \<notin> set rest" "exec N env rest s1 = Some s'" "pc s' = Returned (Some e)"
      by blast
    with a have "StopCall \<notin> set (a # rest) \<and> exec N env (a # rest) s = Some s'
        \<and> pc s' = Returned (Some e)" by simp
    then show ?thesis by blast
  qed
qed

text \<open>While the loop waits with its error, every step other than a new call of
  \<^verbatim>\<open>Stop\<close> is a worker statement, which leaves fewer of them to run, or the return of
  \<^verbatim>\<open>Read\<close>, after which nothing is left to do.\<close>

lemma returned_final:
  assumes "pc s = Returned r" and "all_finished s" and "a \<noteq> StopCall"
  shows "step N env a s = None"
proof (cases "step N env a s")
  case None
  then show ?thesis .
next
  case (Some s')
  then show ?thesis using assms finished_no_worker[OF assms(2)]
    by (cases rule: step_cases) auto
qed

lemma draining_step:
  assumes d: "draining N e s" and a: "a \<noteq> StopCall" and st: "step N env a s = Some s'"
  shows "(pc s' = Returned (Some e) \<and> all_finished s' \<and> a = Wait)
       \<or> (draining N e s' \<and> work_left s' < work_left s)"
proof -
  from d have inv: "slots_inv N s" "cap_inv N s" "hist_inv s"
    and pc: "pc s = AtWait" "processErr s = Some e"
    by (simp_all add: draining_def)
  have keep: "draining N e s'" if "pc s' = pc s" "processErr s' = processErr s"
    using slots_inv_step[OF inv(1) st] cap_inv_step[OF inv(2,1,3) st] hist_inv_step[OF inv(3) st]
      that pc by (simp add: draining_def)
  from st show ?thesis
  proof (cases rule: step_cases)
    case StopCall
    with a show ?thesis by simp
  next
    case Wait
    with pc show ?thesis by (simp add: all_finished_def)
  next
    case (FetchFailed i x)
    with work_left_update[OF FetchFailed(2),
           of "Posting (Wrap x ''Failed to get message from SQS queue'')"] keep
    show ?thesis by (simp add: work_left_def)
  next
    case (Delivered i ms)
    with work_left_update[OF Delivered(2), of Releasing] keep
    show ?thesis by (simp add: work_left_def)
  next
    case (Post i x)
    with work_left_update[OF Post(2), of Releasing] keep
    show ?thesis by (simp add: work_left_def)
  next
    case (Release i)
    with work_left_update[OF Release(2), of Exiting] keep
    show ?thesis by (simp add: work_left_def)
  next
    case (Done i)
    with work_left_update[OF Done(2), of Finished] keep
    show ?thesis by (simp add: work_left_def)
  qed (use pc in simp_all)
qed

lemma draining_bounded:
  "draining N e s \<Longrightarrow> StopCall \<notin> set sched \<Longrightarrow> exec N env sched s = Some s'
   \<Longrightarrow> length sched \<le> Suc (work_left s)
       \<and> (draining N e s' \<or> pc s' = Returned (Some e) \<and> all_finished s')"
proof (induction sched arbitrary: s)
  case Nil
  then show ?case by simp
next
  case (Cons a sched)
  from Cons.prems obtain s1 where st: "step N env a s = Some s1"
    and ex: "exec N env sched s1 = Some s'" and a: "a \<noteq> StopCall"
    and ns: "StopCall \<notin> set sched"
    by (auto split: option.splits)
  from draining_step[OF Cons.prems(1) a st] show ?case
  proof
    assume r: "pc s1 = Returned (Some e) \<and> all_finished s1 \<and> a = Wait"
    have "sched = []"
    proof (cases sched)
      case Nil
      then show ?thesis .
    next
      case (Cons b rest)
      with ns have "b \<noteq> StopCall" by auto
      with r have "step N env b s1 = None" by (intro returned_final) simp_all
      with ex Cons show ?thesis by simp
    qed
    with ex r show ?thesis by simp
  next
    assume d: "draining N e s1 \<and> work_left s1 < work_left s"
    with Cons.IH[OF _ ns ex] show ?thesis by simp
  qed
qed

lemma all_finished_in_flight: "all_finished s \<Longrightarrow> in_flight s = 0"
  by (auto simp: all_finished_def in_flight_def list_all_iff filter_empty_conv)

text \<open>Once an error has been posted and while \<^verbatim>\<open>Stop\<close> is not called, every step
  of the loop or of a worker leaves fewer statements to run, the loop cannot take the
  default case again, and some step is enabled until \<^verbatim>\<open>Read\<close> has returned.\<close>

lemma wait_inv_step:
  assumes "wait_inv s" and "hist_inv s" and "step N env a s = Some s'"
  shows "wait_inv s'"
  using assms(3,1,2)
  by (cases rule: step_cases) (auto simp: wait_inv_def hist_inv_def)

lemma wait_inv_reachable:
  assumes "exec N env sched init_state = Some s"
  shows "wait_inv s"
proof -
  have "wait_inv s \<and> hist_inv s"
  proof (rule exec_invariant[where P = "\<lambda>s. wait_inv s \<and> hist_inv s", OF _ _ assms])
    show "wait_inv init_state \<and> hist_inv init_state"
      by (simp add: wait_inv_def hist_inv_def init_state_def)
  qed (blast intro: wait_inv_step hist_inv_step)
  then show ?thesis ..
qed

lemma settling_reachable:
  assumes run: "exec N env sched init_state = Some s"
    and ns: "StopCall \<notin> set sched" and p: "posted s \<noteq> []"
  shows "settling N s"
proof -
  from stop_count[OF run] ns have z: "stoppers s = 0" "stopsReturned s = 0"
    by (simp_all add: init_state_def)
  from wait_inv_reachable[OF run] p z have w: "workers s \<noteq> []"
    "pc s = AtWait \<longrightarrow> processErr s \<noteq> None"
    "\<forall>r. pc s = Returned r \<longrightarrow> processErr s \<noteq> None"
    by (auto simp: wait_inv_def)
  from ret_inv_reachable[OF run] w have
    "\<forall>r. pc s = Returned r \<longrightarrow> r = processErr s \<and> r \<noteq> None \<and> all_finished s"
    by (auto simp: ret_inv_def)
  with slots_inv_reachable[OF run] cap_inv_reachable[OF run] hist_inv_reachable[OF run] z p w
  show ?thesis by (simp add: settling_def)
qed

lemma slot_holder:
  assumes "0 < in_flight s"
  obtains i where "i < length (workers s)" "holds_slot (workers s ! i)"
proof -
  from assms have "filter holds_slot (workers s) \<noteq> []" by (simp add: in_flight_def)
  then obtain w where "w \<in> set (workers s)" "holds_slot w"
    by (auto simp: filter_empty_conv)
  then show ?thesis using that by (auto simp: in_set_conv_nth)
qed

lemma settling_step:
  assumes t: "settling N s" and a: "a \<noteq> StopCall" and st: "step N env a s = Some s'"
  shows "settling N s' \<and> steps_left s' < steps_left s \<and> hd (posted s') = hd (posted s)
       \<and> length (workers s') + may_launch (pc s') \<le> length (workers s) + may_launch (pc s)"
proof -
  from t have inv: "slots_inv N s" "cap_inv N s" "hist_inv s"
    and z: "stoppers s = 0" and p: "posted s \<noteq> []"
    and w: "pc s = AtWait \<longrightarrow> processErr s \<noteq> None"
    and r: "\<forall>r. pc s = Returned r \<longrightarrow> r = processErr s \<and> r \<noteq> None \<and> all_finished s"
    by (simp_all add: settling_def)
  note inv' = slots_inv_step[OF inv(1) st] cap_inv_step[OF inv(2,1,3) st] hist_inv_step[OF inv(3) st]
  have busy: "\<forall>r. pc s \<noteq> Returned r" if "i < length (workers s)" "workers s ! i \<noteq> Finished" for i
    using r that finished_no_worker[of s i] by auto
  have worker: ?thesis
    if same: "pc s' = pc s" "processErr s' = processErr s" "stoppers s' = stoppers s"
       "length (workers s') = length (workers s)"
      and hd: "posted s' \<noteq> [] \<and> hd (posted s') = hd (posted s)"
      and less: "work_left s' < work_left s"
      and i: "i < length (workers s)" "workers s ! i \<noteq> Finished" for i
    using inv' same hd less busy[OF i] z w by (simp add: settling_def steps_left_def)
  from st show ?thesis
  proof (cases rule: step_cases)
    case StopCall
    with a show ?thesis by simp
  next
    case (ReadFail e)
    with inv(3) p show ?thesis by (simp add: hist_inv_def)
  next
    case ReadStart
    with inv(3) p show ?thesis by (simp add: hist_inv_def)
  next
    case SelectExit
    with z show ?thesis by simp
  next
    case (SelectError e rest)
    with inv' z p show ?thesis
      by (simp add: settling_def steps_left_def work_left_def)
  next
    case SelectDefault
    with inv(3) p show ?thesis by (auto simp: hist_inv_def split: option.splits)
  next
    case Acquire
    with inv' z p show ?thesis
      by (simp add: settling_def steps_left_def work_left_def)
  next
    case Go
    with inv' z p show ?thesis
      by (simp add: settling_def steps_left_def work_left_def)
  next
    case Wait
    with inv' z p w show ?thesis
      by (simp add: settling_def steps_left_def work_left_def all_finished_def)
  next
    case (FetchFailed i x)
    with work_left_update[OF FetchFailed(2),
           of "Posting (Wrap x ''Failed to get message from SQS queue'')"] p
    show ?thesis by (intro worker[of i]) (simp_all add: work_left_def)
  next
    case (Delivered i ms)
    with work_left_update[OF Delivered(2), of Releasing] p
    show ?thesis by (intro worker[of i]) (simp_all add: work_left_def)
  next
    case (Post i x)
    with work_left_update[OF Post(2), of Releasing] p
    show ?thesis by (intro worker[of i]) (simp_all add: work_left_def)
  next
    case (Release i)
    with work_left_update[OF Release(2), of Exiting] p
    show ?thesis by (intro worker[of i]) (simp_all add: work_left_def)
  next
    case (Done i)
    with work_left_update[OF Done(2), of Finished] p
    show ?thesis by (intro worker[of i]) (simp_all add: work_left_def)
  qed
qed

lemma settling_progress:
  assumes t: "settling N s" and nr: "\<forall>r. pc s \<noteq> Returned r"
  shows "\<exists>a s'. a \<noteq> StopCall \<and> step N env a s = Some s'"
proof -
  from t have inv: "slots_inv N s" "cap_inv N s" "hist_inv s"
    and z: "stoppers s = 0" and p: "posted s \<noteq> []"
    and w: "pc s = AtWait \<longrightarrow> processErr s \<noteq> None"
    by (simp_all add: settling_def)
  show ?thesis
  proof (cases "pc s")
    case NotStarted
    with inv(3) p show ?thesis by (simp add: hist_inv_def)
  next
    case AtSelect
    with inv(3) p obtain e rest where "errq s = e # rest"
      by (cases "errq s") (auto simp: hist_inv_def split: option.splits)
    with AtSelect have "step N env SelectError s
        = Some (s\<lparr>pc := AtWait, processErr := Some e, errq := rest\<rparr>)"
      by (simp add: step_def)
    then show ?thesis by blast
  next
    case AtThrottle
    show ?thesis
    proof (cases "throttle s < N")
      case True
      with AtThrottle have "step N env Acquire s = Some (s\<lparr>pc := AtGo, throttle := Suc (throttle s)\<rparr>)"
        by (simp add: step_def)
      then show ?thesis by blast
    next
      case False
      with inv(1) AtThrottle have full: "throttle s = N" "in_flight s = N"
        by (simp_all add: slots_inv_def)
      from inv(3) p AtThrottle have q: "errq s \<noteq> []"
        by (auto simp: hist_inv_def split: option.splits)
      with inv(2) AtThrottle have cap: "length (errq s) + pending s \<le> N" "0 < N"
        by (cases "errq s"; simp add: cap_inv_def)+
      with full obtain i where i: "i < length (workers s)" "holds_slot (workers s ! i)"
        using slot_holder[of s] by auto
      show ?thesis
      proof (cases "workers s ! i")
        case Running
        with i have "step N env (Process i) s = Some (run_process env i s)"
          by (simp add: step_def)
        then show ?thesis by blast
      next
        case (Posting x)
        with i can_post_pending_pos[of i s] have "0 < pending s" by simp
        with cap have "length (errq s) < N" by simp
        with i Posting have "step N env (Post i) s
            = Some (s\<lparr>workers := (workers s)[i := Releasing], errq := errq s @ [x],
                      posted := posted s @ [x]\<rparr>)"
          by (simp add: step_def)
        then show ?thesis by blast
      next
        case Releasing
        with i full cap have "step N env (Release i) s
            = Some (s\<lparr>workers := (workers s)[i := Exiting], throttle := throttle s - 1\<rparr>)"
          by (simp add: step_def)
        then show ?thesis by blast
      next
        case Exiting
        with i show ?thesis by simp
      next
        case Finished
        with i show ?thesis by simp
      qed
    qed
  next
    case AtGo
    then have "step N env Go s = Some (s\<lparr>pc := AtSelect, workers := workers s @ [Running]\<rparr>)"
      by (simp add: step_def)
    then show ?thesis by blast
  next
    case AtWait
    with w obtain e where e: "processErr s = Some e" by auto
    with inv AtWait have d: "draining N e s" by (simp add: draining_def)
    show ?thesis
    proof (cases "all_finished s")
      case True
      with AtWait have "step N env Wait s = Some (s\<lparr>pc := Returned (processErr s)\<rparr>)"
        by (simp add: step_def)
      then show ?thesis by blast
    next
      case False
      from draining_worker_step[OF d False, of env] show ?thesis by blast
    qed
  next
    case (Returned r)
    with nr show ?thesis by simp
  qed
qed

lemma settling_bounded:
  "settling N s \<Longrightarrow> StopCall \<notin> set rest \<Longrightarrow> exec N env rest s = Some s'
   \<Longrightarrow> settling N s' \<and> length rest + steps_left s' \<le> steps_left s
       \<and> hd (posted s') = hd (posted s)
       \<and> length (workers s') + may_launch (pc s') \<le> length (workers s) + may_launch (pc s)"
proof (induction rest arbitrary: s)
  case Nil
  then show ?case by simp
next
  case (Cons a rest)
  from Cons.prems obtain s1 where st: "step N env a s = Some s1"
    and ex: "exec N env rest s1 = Some s'" and a: "a \<noteq> StopCall"
    and ns: "StopCall \<notin> set rest"
    by (auto split: option.splits)
  note one = settling_step[OF Cons.prems(1) a st]
  from one have "settling N s1" by simp
  from Cons.IH[OF this ns ex] one show ?case by simp
qed

lemma settling_value:
  assumes "settling N s" and "pc s = Returned r"
  shows "r = Some (hd (posted s)) \<and> all_finished s"
  using assms by (auto simp: settling_def hist_inv_def)

lemma settling_returns:
  "settling N s \<Longrightarrow>
     \<exists>rest s'. StopCall \<notin> set rest \<and> exec N env rest s = Some s'
              \<and> pc s' = Returned (Some (hd (posted s))) \<and> all_finished s'"
proof (induction "steps_left s" arbitrary: s rule: less_induct)
  case less
  show ?case
  proof (cases "\<exists>r. pc s = Returned r")
    case True
    then obtain r where r: "pc s = Returned r" by blast
    from settling_value[OF less.prems r] r
    have "StopCall \<notin> set [] \<and> exec N env [] s = Some s
        \<and> pc s = Returned (Some (hd (posted s))) \<and> all_finished s" by simp
    then show ?thesis by blast
  next
    case False
    with settling_progress[OF less.prems, of env] obtain a s1 where
      a: "a \<noteq> StopCall" "step N env a s = Some s1" by auto
    note one = settling_step[OF less.prems a]
    then have s1: "settling N s1" "steps_left s1 < steps_left s" "hd (posted s1) = hd (posted s)"
      by simp_all
    from less.hyps[OF s1(2,1)] obtain rest s' where
      r: "StopCall \<notin> set rest" "exec N env rest s1 = Some s'"
         "pc s' = Returned (Some (hd (posted s1)))" "all_finished s'"
      by blast
    with a s1(3) have "StopCall \<notin> set (a # rest) \<and> exec N env (a # rest) s = Some s'
        \<and> pc s' = Returned (Some (hd (posted s))) \<and> all_finished s'" by simp
    then show ?thesis by blast
  qed
qed

subsection \<open>Runs on concrete schedules\<close>

lemmas source_eval =
  init_state_def step_def run_process_def process_def in_flight_def all_finished_def

lemma ex_full_run: "exec 2 ex_target_env ex_full_schedule init_state = Some ex_full_state"
  by (simp add: ex_full_schedule_def ex_full_state_def ex_target_env_def source_eval)

lemma ex_fetch_run: "exec 3 ex_fetch_env ex_fetch_schedule init_state = Some ex_fetch_state"
  by (simp add: ex_fetch_schedule_def ex_four_units_def ex_fetch_state_def ex_fetch_error_def
        ex_fetch_env_def source_eval)

lemma ex_target_run: "exec 3 ex_target_env ex_target_schedule init_state = Some ex_target_state"
  by (simp add: ex_target_schedule_def ex_four_units_def ex_target_state_def
        ex_target_env_def source_eval)

lemma ex_stop_run: "exec 1 ex_target_env ex_stop_schedule init_state = Some ex_stop_state"
  by (simp add: ex_stop_schedule_def ex_stop_state_def ex_target_env_def source_eval)

lemma ex_launch_run: "exec 3 ex_fetch_env ex_launch_schedule init_state = Some ex_launched_state"
  by (simp add: ex_launch_schedule_def ex_launched_state_def ex_fetch_env_def source_eval)

lemma ex_posting_run: "exec 3 ex_fetch_env ex_four_units init_state = Some ex_posting_state"
  by (simp add: ex_four_units_def ex_posting_state_def ex_launched_state_def ex_fetch_error_def
        ex_fetch_env_def source_eval)

lemma ex_posted_run:
  "exec 3 ex_fetch_env (ex_four_units @ [Post 3]) init_state = Some ex_posted_state"
  by (simp add: ex_four_units_def ex_posted_state_def ex_posting_state_def
        ex_launched_state_def ex_fetch_error_def ex_fetch_env_def source_eval)

lemma ex_settle_run:
  "exec 3 ex_fetch_env ex_settle_schedule ex_posted_state = Some ex_fetch_state"
  by (simp add: ex_settle_schedule_def ex_posted_state_def ex_posting_state_def
        ex_launched_state_def ex_fetch_state_def ex_fetch_error_def ex_fetch_env_def
        step_def all_finished_def)

lemma ex_stuck_run: "exec 1 ex_failing_env ex_stuck_schedule init_state = Some ex_stuck_state"
  by (simp add: ex_stuck_schedule_def ex_stuck_state_def ex_fetch_error_def
        ex_failing_env_def source_eval)

subsection \<open>Bounded concurrency\<close>

text \<open>
  Claim C8. In every state the \<^verbatim>\<open>Read\<close> loop can reach, under any schedule, the number
  of worker units in flight (launched and not yet past their \<^verbatim>\<open><-throttle\<close>) is at most
  the number of slots taken, which is at most \<^verbatim>\<open>concurrentWrites\<close>. A unit is launched
  only from the point after \<^verbatim>\<open>throttle <- struct{}{}\<close>, where one taken slot has no
  unit yet; a unit that receives from \<^verbatim>\<open>throttle\<close> gives its slot back; and when all
  slots are taken, the send on \<^verbatim>\<open>throttle\<close> is blocked.
\<close>

theorem in_flight_bounded_by_slots:
  assumes "exec N env sched init_state = Some s"
  shows "in_flight s \<le> throttle s \<and> throttle s \<le> N
       \<and> throttle s = in_flight s + (if pc s = AtGo then 1 else 0)
       \<and> (throttle s = N \<longrightarrow> step N env Acquire s = None)
       \<and> (\<forall>s'. step N env Go s = Some s' \<longrightarrow>
             throttle s = Suc (in_flight s) \<and> in_flight s' = Suc (in_flight s))
       \<and> (\<forall>i s'. step N env (Release i) s = Some s' \<longrightarrow>
             0 < in_flight s \<and> in_flight s' = in_flight s - 1
           \<and> throttle s' = throttle s - 1)"
proof -
  from slots_inv_reachable[OF assms] have inv:
    "throttle s = in_flight s + (if pc s = AtGo then 1 else 0)" "throttle s \<le> N"
    by (simp_all add: slots_inv_def)
  have go: "throttle s = Suc (in_flight s) \<and> in_flight s' = Suc (in_flight s)"
    if "step N env Go s = Some s'" for s'
    using that inv by (cases rule: step_cases) (simp_all add: in_flight_def)
  have rel: "0 < in_flight s \<and> in_flight s' = in_flight s - 1 \<and> throttle s' = throttle s - 1"
    if "step N env (Release i) s = Some s'" for i s'
    using that
  proof (cases rule: step_cases)
    case (Release j)
    from in_flight_update[OF Release(2), of Exiting] Release
    have "Suc (in_flight s') = in_flight s" by (simp add: in_flight_def)
    moreover from Release have "throttle s' = throttle s - 1" by simp
    ultimately show ?thesis by linarith
  qed simp_all
  have acq: "throttle s = N \<longrightarrow> step N env Acquire s = None"
    by (simp add: step_def)
  from inv have "in_flight s \<le> throttle s" by simp
  with inv acq go rel show ?thesis by blast
qed

text \<open>Two slots, two units launched: both slots are taken and the loop is blocked at
  the send on \<^verbatim>\<open>throttle\<close>.\<close>

theorem in_flight_bounded_by_slots_witness:
  "exec 2 ex_target_env ex_full_schedule init_state = Some ex_full_state
   \<and> in_flight ex_full_state = 2 \<and> throttle ex_full_state = 2
   \<and> in_flight ex_full_state \<le> throttle ex_full_state \<and> throttle ex_full_state \<le> 2
   \<and> step 2 ex_target_env Acquire ex_full_state = None"
proof -
  note t = in_flight_bounded_by_slots[OF ex_full_run]
  have "throttle ex_full_state = 2" "in_flight ex_full_state = 2"
    by (simp_all add: ex_full_state_def in_flight_def)
  with t ex_full_run show ?thesis by simp
qed

subsection \<open>The terminal error\<close>

lemma taken_error_returned:
  assumes "exec N env sched init_state = Some s"
  shows "(\<forall>e. processErr s = Some e \<longrightarrow>
            posted s \<noteq> [] \<and> hd (posted s) = e \<and> is_fetch_error env e
          \<and> step N env SelectDefault s = None \<and> step N env Acquire s = None
          \<and> step N env Go s = None
          \<and> (\<exists>rest s'. StopCall \<notin> set rest \<and> exec N env rest s = Some s'
                       \<and> pc s' = Returned (Some e))
          \<and> (\<forall>rest s'. StopCall \<notin> set rest \<and> exec N env rest s = Some s' \<longrightarrow>
                 length rest \<le> Suc (work_left s)))
       \<and> (\<forall>r. pc s = Returned r \<longrightarrow>
            all_finished s \<and> in_flight s = 0
          \<and> (r = processErr s
             \<or> (\<exists>e. GetQueueUrl env = Some e
                    \<and> r = Some (Wrap e ''Failed to get SQS queue URL''))))
       \<and> (GetQueueUrl env = None \<and> (\<forall>k. \<exists>ms. ReceiveMessage env k = Inr ms) \<longrightarrow>
            posted s = [] \<and> processErr s = None \<and> (\<forall>r. pc s = Returned r \<longrightarrow> r = None))"
proof (intro conjI allI impI)
  note h = hist_inv_reachable[OF assms]
  note f = fetch_inv_reachable[OF assms]
  note r = ret_inv_reachable[OF assms]
  {
    fix e assume e: "processErr s = Some e"
    with h have p: "posted s = e # errq s" and pc: "pc s = AtWait \<or> pc s = Returned (Some e)"
      by (simp_all add: hist_inv_def)
    from p show "posted s \<noteq> []" "hd (posted s) = e" by simp_all
    from p f show "is_fetch_error env e" by (simp add: fetch_inv_def)
    from pc show "step N env SelectDefault s = None" "step N env Acquire s = None"
      "step N env Go s = None" by (auto simp: step_def)
    from pc show "\<exists>rest s'. StopCall \<notin> set rest \<and> exec N env rest s = Some s'
                       \<and> pc s' = Returned (Some e)"
    proof
      assume "pc s = AtWait"
      with e h slots_inv_reachable[OF assms] cap_inv_reachable[OF assms]
      have "draining N e s" by (simp add: draining_def)
      then show ?thesis by (rule draining_returns)
    next
      assume "pc s = Returned (Some e)"
      then have "StopCall \<notin> set [] \<and> exec N env [] s = Some s \<and> pc s = Returned (Some e)"
        by simp
      then show ?thesis by blast
    qed
    fix rest s'
    assume run: "StopCall \<notin> set rest \<and> exec N env rest s = Some s'"
    from pc show "length rest \<le> Suc (work_left s)"
    proof
      assume "pc s = AtWait"
      with e h slots_inv_reachable[OF assms] cap_inv_reachable[OF assms]
      have "draining N e s" by (simp add: draining_def)
      from draining_bounded[OF this] run show ?thesis by blast
    next
      assume ret: "pc s = Returned (Some e)"
      with r have fin: "all_finished s" by (simp add: ret_inv_def)
      have "rest = []"
      proof (cases rest)
        case Nil
        then show ?thesis .
      next
        case (Cons b bs)
        with run have "b \<noteq> StopCall" by auto
        with ret fin have "step N env b s = None" by (intro returned_final) simp_all
        with run Cons show ?thesis by simp
      qed
      then show ?thesis by simp
    qed
  }
  {
    fix r' assume ret: "pc s = Returned r'"
    with r show "all_finished s"
      "r' = processErr s \<or> (\<exists>e. GetQueueUrl env = Some e
                    \<and> r' = Some (Wrap e ''Failed to get SQS queue URL''))"
      by (auto simp: ret_inv_def)
    then show "in_flight s = 0" by (simp add: all_finished_in_flight)
  }
  {
    assume ok: "GetQueueUrl env = None \<and> (\<forall>k. \<exists>ms. ReceiveMessage env k = Inr ms)"
    have nofe: "\<not> is_fetch_error env e" for e
    proof
      assume "is_fetch_error env e"
      then obtain k e' where "ReceiveMessage env k = Inl e'"
        by (auto simp: is_fetch_error_def)
      moreover from ok obtain ms where "ReceiveMessage env k = Inr ms" by blast
      ultimately show False by simp
    qed
    with f show np: "posted s = []"
      by (cases "posted s") (auto simp: fetch_inv_def)
    with h show npe: "processErr s = None"
      by (cases "processErr s") (simp_all add: hist_inv_def)
    fix r' assume "pc s = Returned r'"
    with r ok npe show "r' = None" by (auto simp: ret_inv_def)
  }
qed

lemma fetch_failure_posts:
  assumes "exec N env sched init_state = Some s"
  shows "(\<forall>i e. i < length (workers s) \<and> workers s ! i = Running
               \<and> ReceiveMessage env (processCalls s) = Inl e \<longrightarrow>
            (\<exists>s1. step N env (Process i) s = Some s1
                 \<and> workers s1 ! i = Posting (Wrap e ''Failed to get message from SQS queue'')))
       \<and> (\<forall>i e. i < length (workers s) \<and> workers s ! i = Posting e \<and> posted s = [] \<longrightarrow>
            (\<exists>s1. step N env (Post i) s = Some s1 \<and> posted s1 = [e]))"
proof (intro conjI allI impI)
  fix i e
  assume a: "i < length (workers s) \<and> workers s ! i = Running
               \<and> ReceiveMessage env (processCalls s) = Inl e"
  then have st: "step N env (Process i) s = Some (run_process env i s)" by (simp add: step_def)
  have "workers (run_process env i s) ! i
          = Posting (Wrap e ''Failed to get message from SQS queue'')"
  proof (cases rule: run_process_cases[of env s i])
    case (fetch_failed e')
    with a show ?thesis by simp
  next
    case (delivered ms)
    with a show ?thesis by simp
  qed
  with st show "\<exists>s1. step N env (Process i) s = Some s1
                 \<and> workers s1 ! i = Posting (Wrap e ''Failed to get message from SQS queue'')"
    by blast
next
  fix i e
  assume a: "i < length (workers s) \<and> workers s ! i = Posting e \<and> posted s = []"
  with hist_inv_reachable[OF assms] have q: "errq s = []"
    by (auto simp: hist_inv_def split: option.splits)
  from a holds_slot_in_flight_pos[of i s] have "0 < in_flight s" by simp
  with slots_inv_reachable[OF assms] have "0 < N" by (simp add: slots_inv_def)
  with a q have "step N env (Post i) s
      = Some (s\<lparr>workers := (workers s)[i := Releasing], errq := errq s @ [e],
                posted := posted s @ [e]\<rparr>)"
    by (simp add: step_def)
  with a show "\<exists>s1. step N env (Post i) s = Some s1 \<and> posted s1 = [e]" by simp
qed

lemma posted_error_returned:
  assumes run: "exec N env sched init_state = Some s"
    and ns: "StopCall \<notin> set sched" and p: "posted s \<noteq> []"
  shows "(\<exists>rest s'. StopCall \<notin> set rest \<and> exec N env rest s = Some s'
                   \<and> pc s' = Returned (Some (hd (posted s))) \<and> all_finished s')
       \<and> (\<forall>rest s'. StopCall \<notin> set rest \<and> exec N env rest s = Some s' \<longrightarrow>
              length rest \<le> steps_left s
            \<and> length (workers s') \<le> Suc (length (workers s))
            \<and> (\<forall>r. pc s' = Returned r \<longrightarrow> r = Some (hd (posted s)) \<and> all_finished s')
            \<and> ((\<forall>r. pc s' \<noteq> Returned r) \<longrightarrow>
                  (\<exists>a s''. a \<noteq> StopCall \<and> step N env a s' = Some s'')))"
proof (rule conjI)
  note t = settling_reachable[OF run ns p]
  from settling_returns[OF t]
  show "\<exists>rest s'. StopCall \<notin> set rest \<and> exec N env rest s = Some s'
                   \<and> pc s' = Returned (Some (hd (posted s))) \<and> all_finished s'" .
  show "\<forall>rest s'. StopCall \<notin> set rest \<and> exec N env rest s = Some s' \<longrightarrow>
              length rest \<le> steps_left s
            \<and> length (workers s') \<le> Suc (length (workers s))
            \<and> (\<forall>r. pc s' = Returned r \<longrightarrow> r = Some (hd (posted s)) \<and> all_finished s')
            \<and> ((\<forall>r. pc s' \<noteq> Returned r) \<longrightarrow>
                  (\<exists>a s''. a \<noteq> StopCall \<and> step N env a s' = Some s''))"
  proof (intro allI impI)
    fix rest s'
    assume "StopCall \<notin> set rest \<and> exec N env rest s = Some s'"
    then have r: "StopCall \<notin> set rest" "exec N env rest s = Some s'" by simp_all
    note b = settling_bounded[OF t r]
    then have t': "settling N s'" and hd: "hd (posted s') = hd (posted s)" by simp_all
    from b have len: "length rest \<le> steps_left s" by simp
    have "may_launch (pc s) \<le> 1" by (cases "pc s") simp_all
    with b have w: "length (workers s') \<le> Suc (length (workers s))" by simp
    have v: "\<forall>r. pc s' = Returned r \<longrightarrow> r = Some (hd (posted s)) \<and> all_finished s'"
      using settling_value[OF t'] hd by simp
    have g: "(\<forall>r. pc s' \<noteq> Returned r) \<longrightarrow>
                  (\<exists>a s''. a \<noteq> StopCall \<and> step N env a s' = Some s'')"
      using settling_progress[OF t'] by blast
    from len w v g show "length rest \<le> steps_left s
            \<and> length (workers s') \<le> Suc (length (workers s))
            \<and> (\<forall>r. pc s' = Returned r \<longrightarrow> r = Some (hd (posted s)) \<and> all_finished s')
            \<and> ((\<forall>r. pc s' \<noteq> Returned r) \<longrightarrow>
                  (\<exists>a s''. a \<noteq> StopCall \<and> step N env a s' = Some s''))"
      by (intro conjI)
  qed
qed

text \<open>
  Claim C2, as the code has it. In every reachable state:
  \<^item> a worker whose \<^verbatim>\<open>ReceiveMessage\<close> fails goes on to the send of the wrapped error
    on \<^verbatim>\<open>processErrorSignal\<close>, and while nothing has been posted that send is enabled
    and makes the error the first one posted;
  \<^item> when \<^verbatim>\<open>Stop\<close> has not been called and an error has been posted, then, as long as
    \<^verbatim>\<open>Stop\<close> is not called, \<^verbatim>\<open>Read\<close> can run to its return of the first posted
    error with every launched worker completed; and under every schedule the run takes no
    more steps than there are statements left, launches at most one more unit (the one
    the loop had already left the \<^verbatim>\<open>select\<close> for), can return only the first posted
    error and only with every launched worker completed, and has a step to take until
    \<^verbatim>\<open>Read\<close> has returned;
  \<^item> once the loop has taken an error from \<^verbatim>\<open>processErrorSignal\<close>, that error is the
    first one ever posted and is the wrapped error of a failed \<^verbatim>\<open>ReceiveMessage\<close>; the
    loop launches nothing more (the default case, the send on \<^verbatim>\<open>throttle\<close> and the
    \<^verbatim>\<open>go\<close> statement are all behind it); the workers can always run to completion,
    after which \<^verbatim>\<open>Read\<close> returns that error; and they cannot run for more steps than
    they have statements left;
  \<^item> whenever \<^verbatim>\<open>Read\<close> has returned, every launched worker has completed and the
    value returned is \<^verbatim>\<open>processErr\<close> (or the wrapped error of \<^verbatim>\<open>GetQueueUrl\<close>);
  \<^item> a failure of \<^verbatim>\<open>WriteToTarget\<close> is only logged by \<^verbatim>\<open>process\<close>: when no
    \<^verbatim>\<open>ReceiveMessage\<close> fails, nothing is ever posted and \<^verbatim>\<open>Read\<close> can only return
    nil, whatever the target answers.
\<close>

theorem read_returns_first_fetch_error:
  assumes "exec N env sched init_state = Some s"
  shows "(\<forall>i e. i < length (workers s) \<and> workers s ! i = Running
               \<and> ReceiveMessage env (processCalls s) = Inl e \<longrightarrow>
            (\<exists>s1. step N env (Process i) s = Some s1
                 \<and> workers s1 ! i = Posting (Wrap e ''Failed to get message from SQS queue'')))
       \<and> (\<forall>i e. i < length (workers s) \<and> workers s ! i = Posting e \<and> posted s = [] \<longrightarrow>
            (\<exists>s1. step N env (Post i) s = Some s1 \<and> posted s1 = [e]))
       \<and> (StopCall \<notin> set sched \<and> posted s \<noteq> [] \<longrightarrow>
            (\<exists>rest s'. StopCall \<notin> set rest \<and> exec N env rest s = Some s'
                      \<and> pc s' = Returned (Some (hd (posted s))) \<and> all_finished s')
          \<and> (\<forall>rest s'. StopCall \<notin> set rest \<and> exec N env rest s = Some s' \<longrightarrow>
                 length rest \<le> steps_left s
               \<and> length (workers s') \<le> Suc (length (workers s))
               \<and> (\<forall>r. pc s' = Returned r \<longrightarrow> r = Some (hd (posted s)) \<and> all_finished s')
               \<and> ((\<forall>r. pc s' \<noteq> Returned r) \<longrightarrow>
                     (\<exists>a s''. a \<noteq> StopCall \<and> step N env a s' = Some s''))))
       \<and> (\<forall>e. processErr s = Some e \<longrightarrow>
            posted s \<noteq> [] \<and> hd (posted s) = e \<and> is_fetch_error env e
          \<and> step N env SelectDefault s = None \<and> step N env Acquire s = None
          \<and> step N env Go s = None
          \<and> (\<exists>rest s'. StopCall \<notin> set rest \<and> exec N env rest s = Some s'
                       \<and> pc s' = Returned (Some e))
          \<and> (\<forall>rest s'. StopCall \<notin> set rest \<and> exec N env rest s = Some s' \<longrightarrow>
                 length rest \<le> Suc (work_left s)))
       \<and> (\<forall>r. pc s = Returned r \<longrightarrow>
            all_finished s \<and> in_flight s = 0
          \<and> (r = processErr s
             \<or> (\<exists>e. GetQueueUrl env = Some e
                    \<and> r = Some (Wrap e ''Failed to get SQS queue URL''))))
       \<and> (GetQueueUrl env = None \<and> (\<forall>k. \<exists>ms. ReceiveMessage env k = Inr ms) \<longrightarrow>
            posted s = [] \<and> processErr s = None \<and> (\<forall>r. pc s = Returned r \<longrightarrow> r = None))"
proof -
  note f = fetch_failure_posts[OF assms]
  note t = taken_error_returned[OF assms]
  have p: "StopCall \<notin> set sched \<and> posted s \<noteq> [] \<longrightarrow>
            (\<exists>rest s'. StopCall \<notin> set rest \<and> exec N env rest s = Some s'
                      \<and> pc s' = Returned (Some (hd (posted s))) \<and> all_finished s')
          \<and> (\<forall>rest s'. StopCall \<notin> set rest \<and> exec N env rest s = Some s' \<longrightarrow>
                 length rest \<le> steps_left s
               \<and> length (workers s') \<le> Suc (length (workers s))
               \<and> (\<forall>r. pc s' = Returned r \<longrightarrow> r = Some (hd (posted s)) \<and> all_finished s')
               \<and> ((\<forall>r. pc s' \<noteq> Returned r) \<longrightarrow>
                     (\<exists>a s''. a \<noteq> StopCall \<and> step N env a s' = Some s'')))"
  proof (rule impI)
    assume "StopCall \<notin> set sched \<and> posted s \<noteq> []"
    then have "StopCall \<notin> set sched" "posted s \<noteq> []" by simp_all
    from posted_error_returned[OF assms this]
    show "(\<exists>rest s'. StopCall \<notin> set rest \<and> exec N env rest s = Some s'
                      \<and> pc s' = Returned (Some (hd (posted s))) \<and> all_finished s')
          \<and> (\<forall>rest s'. StopCall \<notin> set rest \<and> exec N env rest s = Some s' \<longrightarrow>
                 length rest \<le> steps_left s
               \<and> length (workers s') \<le> Suc (length (workers s))
               \<and> (\<forall>r. pc s' = Returned r \<longrightarrow> r = Some (hd (posted s)) \<and> all_finished s')
               \<and> ((\<forall>r. pc s' \<noteq> Returned r) \<longrightarrow>
                     (\<exists>a s''. a \<noteq> StopCall \<and> step N env a s' = Some s'')))" .
  qed
  from f p t show ?thesis by (elim conjE, intro conjI) assumption+
qed

text \<open>Three slots and a queue whose fourth \<^verbatim>\<open>ReceiveMessage\<close> fails. The fourth unit,
  launched and running, fails and stands at its send; nothing has been posted, so it posts
  its error; from there the loop takes the error, the three units left complete and
  \<^verbatim>\<open>Read\<close> returns the error, in eight steps. With a queue that never fails, nothing is
  posted.\<close>

theorem read_returns_first_fetch_error_witness:
  "exec 3 ex_fetch_env ex_launch_schedule init_state = Some ex_launched_state
   \<and> 3 < length (workers ex_launched_state) \<and> workers ex_launched_state ! 3 = Running
   \<and> ReceiveMessage ex_fetch_env (processCalls ex_launched_state) = Inl (Transport 4)
   \<and> (\<exists>s1. step 3 ex_fetch_env (Process 3) ex_launched_state = Some s1
          \<and> workers s1 ! 3 = Posting ex_fetch_error)
   \<and> exec 3 ex_fetch_env ex_four_units init_state = Some ex_posting_state
   \<and> workers ex_posting_state ! 3 = Posting ex_fetch_error \<and> posted ex_posting_state = []
   \<and> (\<exists>s1. step 3 ex_fetch_env (Post 3) ex_posting_state = Some s1
          \<and> posted s1 = [ex_fetch_error])
   \<and> exec 3 ex_fetch_env (ex_four_units @ [Post 3]) init_state = Some ex_posted_state
   \<and> StopCall \<notin> set (ex_four_units @ [Post 3])
   \<and> posted ex_posted_state = [ex_fetch_error]
   \<and> (\<exists>rest s'. StopCall \<notin> set rest \<and> exec 3 ex_fetch_env rest ex_posted_state = Some s'
               \<and> pc s' = Returned (Some ex_fetch_error) \<and> all_finished s')
   \<and> StopCall \<notin> set ex_settle_schedule
   \<and> exec 3 ex_fetch_env ex_settle_schedule ex_posted_state = Some ex_fetch_state
   \<and> length ex_settle_schedule \<le> steps_left ex_posted_state
   \<and> length (workers ex_fetch_state) \<le> Suc (length (workers ex_posted_state))
   \<and> exec 3 ex_fetch_env ex_fetch_schedule init_state = Some ex_fetch_state
   \<and> processErr ex_fetch_state = Some ex_fetch_error
   \<and> pc ex_fetch_state = Returned (Some ex_fetch_error)
   \<and> ReceiveMessage ex_fetch_env 3 = Inl (Transport 4)
   \<and> hd (posted ex_fetch_state) = ex_fetch_error
   \<and> is_fetch_error ex_fetch_env ex_fetch_error
   \<and> all_finished ex_fetch_state \<and> in_flight ex_fetch_state = 0
   \<and> exec 3 ex_target_env ex_target_schedule init_state = Some ex_target_state
   \<and> GetQueueUrl ex_target_env = None
   \<and> ReceiveMessage ex_target_env = (\<lambda>k. Inr [])
   \<and> posted ex_target_state = [] \<and> processErr ex_target_state = None"
proof -
  note l = read_returns_first_fetch_error[OF ex_launch_run]
  note g = read_returns_first_fetch_error[OF ex_posting_run]
  note q = read_returns_first_fetch_error[OF ex_posted_run]
  note t = read_returns_first_fetch_error[OF ex_fetch_run]
  note u = read_returns_first_fetch_error[OF ex_target_run]
  have l1: "3 < length (workers ex_launched_state)" "workers ex_launched_state ! 3 = Running"
    "ReceiveMessage ex_fetch_env (processCalls ex_launched_state) = Inl (Transport 4)"
    by (simp_all add: ex_launched_state_def ex_fetch_env_def)
  with l have "\<exists>s1. step 3 ex_fetch_env (Process 3) ex_launched_state = Some s1
          \<and> workers s1 ! 3 = Posting (Wrap (Transport 4) ''Failed to get message from SQS queue'')"
    by blast
  then have l2: "\<exists>s1. step 3 ex_fetch_env (Process 3) ex_launched_state = Some s1
          \<and> workers s1 ! 3 = Posting ex_fetch_error"
    by (simp add: ex_fetch_error_def)
  have g1: "3 < length (workers ex_posting_state)"
    "workers ex_posting_state ! 3 = Posting ex_fetch_error" "posted ex_posting_state = []"
    by (simp_all add: ex_posting_state_def ex_launched_state_def)
  with g have g2: "\<exists>s1. step 3 ex_fetch_env (Post 3) ex_posting_state = Some s1
          \<and> posted s1 = [ex_fetch_error]"
    by blast
  have q1: "StopCall \<notin> set (ex_four_units @ [Post 3])"
    "posted ex_posted_state = [ex_fetch_error]"
    by (simp_all add: ex_four_units_def ex_posted_state_def)
  then have q0: "StopCall \<notin> set (ex_four_units @ [Post 3]) \<and> posted ex_posted_state \<noteq> []"
    "hd (posted ex_posted_state) = ex_fetch_error"
    by simp_all
  with q have q2: "\<exists>rest s'. StopCall \<notin> set rest
      \<and> exec 3 ex_fetch_env rest ex_posted_state = Some s'
      \<and> pc s' = Returned (Some ex_fetch_error) \<and> all_finished s'"
    by metis
  have q3: "StopCall \<notin> set ex_settle_schedule" by (simp add: ex_settle_schedule_def)
  from q q0(1) have "\<forall>rest s'. StopCall \<notin> set rest
      \<and> exec 3 ex_fetch_env rest ex_posted_state = Some s' \<longrightarrow>
        length rest \<le> steps_left ex_posted_state
      \<and> length (workers s') \<le> Suc (length (workers ex_posted_state))"
    by blast
  with q3 ex_settle_run have q4: "length ex_settle_schedule \<le> steps_left ex_posted_state"
    "length (workers ex_fetch_state) \<le> Suc (length (workers ex_posted_state))"
    by blast+
  have a: "processErr ex_fetch_state = Some ex_fetch_error"
    "pc ex_fetch_state = Returned (Some ex_fetch_error)"
    "ReceiveMessage ex_fetch_env 3 = Inl (Transport 4)"
    by (simp_all add: ex_fetch_state_def ex_fetch_env_def)
  from t a have b: "hd (posted ex_fetch_state) = ex_fetch_error"
    "is_fetch_error ex_fetch_env ex_fetch_error"
    "all_finished ex_fetch_state" "in_flight ex_fetch_state = 0"
    by blast+
  have c: "GetQueueUrl ex_target_env = None" "ReceiveMessage ex_target_env = (\<lambda>k. Inr [])"
    by (simp_all add: ex_target_env_def)
  then have "GetQueueUrl ex_target_env = None
             \<and> (\<forall>k. \<exists>ms. ReceiveMessage ex_target_env k = Inr ms)" by simp
  with u have d: "posted ex_target_state = []" "processErr ex_target_state = None"
    by blast+
  from ex_launch_run l1 l2 ex_posting_run g1(2,3) g2 ex_posted_run q1 q2 q3 ex_settle_run q4
    ex_fetch_run a b ex_target_run c d
  show ?thesis by (intro conjI)
qed

text \<open>
  Against claim C2 as stated. Three slots and a target that fails on the fourth delivery:
  after the fourth unit has delivered and all four units have completed, the target's
  error is in the log only: nothing was posted, \<^verbatim>\<open>processErr\<close> is nil, and the loop has
  taken the default case again and goes on to acquire a slot for a fifth unit.
  One slot and a queue whose every \<^verbatim>\<open>ReceiveMessage\<close> fails: the first unit has posted
  its error and completed; the loop, which had left its \<^verbatim>\<open>select\<close> before, has
  launched a second unit after that; \<^verbatim>\<open>Stop\<close> has been called and the \<^verbatim>\<open>select\<close>
  has taken the exit signal and not the error; the second unit has failed too and stands
  at its send on the full channel. No step but a new call of \<^verbatim>\<open>Stop\<close> is enabled:
  the worker does not complete and \<^verbatim>\<open>Read\<close> does not return.
\<close>

theorem cycle_failure_not_terminal_counterexample:
  "exec 3 ex_target_env ex_target_schedule init_state = Some ex_target_state
   \<and> WriteToTarget ex_target_env 3 [] = Some (Transport 44)
   \<and> deliveries ex_target_state = 4
   \<and> forwarded ex_target_state = [[], [], [], []]
   \<and> logged ex_target_state = [Transport 44]
   \<and> all_finished ex_target_state
   \<and> posted ex_target_state = [] \<and> errq ex_target_state = []
   \<and> processErr ex_target_state = None
   \<and> pc ex_target_state = AtThrottle
   \<and> step 3 ex_target_env Acquire ex_target_state
       = Some (ex_target_state\<lparr>pc := AtGo, throttle := 1\<rparr>)
   \<and> exec 1 ex_failing_env ex_stuck_schedule init_state = Some ex_stuck_state
   \<and> ReceiveMessage ex_failing_env = (\<lambda>k. Inl (Transport 4))
   \<and> posted ex_stuck_state = [ex_fetch_error]
   \<and> processErr ex_stuck_state = None
   \<and> pc ex_stuck_state = AtWait
   \<and> workers ex_stuck_state = [Finished, Posting ex_fetch_error]
   \<and> map (\<lambda>a. step 1 ex_failing_env a ex_stuck_state)
        [ReadStart, SelectExit, SelectError, SelectDefault, Acquire, Go, Wait,
         Process 0, Post 0, Release 0, Done 0, Process 1, Post 1, Release 1, Done 1]
       = replicate 15 None"
  using ex_target_run ex_stuck_run
  by (simp add: ex_target_state_def ex_target_env_def ex_stuck_state_def ex_failing_env_def
        step_def all_finished_def numeral_eq_Suc)

subsection \<open>Stop\<close>

text \<open>
  Claim C3, as the code has it. \<^verbatim>\<open>Stop\<close> returns only by handing its signal to the
  \<^verbatim>\<open>select\<close> of a running \<^verbatim>\<open>Read\<close> loop. In every reachable state each call of
  \<^verbatim>\<open>Stop\<close> is either still blocked in its send or has returned; at most one has
  returned, and none while \<^verbatim>\<open>Read\<close> has not been started; after one has returned the
  loop is over. The hand-over is possible only while \<^verbatim>\<open>Read\<close> is at its \<^verbatim>\<open>select\<close>,
  where a pending \<^verbatim>\<open>Stop\<close> keeps the loop from taking the default case.
\<close>

theorem stop_returns_only_through_read:
  assumes "exec N env sched init_state = Some s"
  shows "stoppers s + stopsReturned s = count_list sched StopCall
       \<and> stopsReturned s \<le> 1
       \<and> (ReadStart \<notin> set sched \<longrightarrow> stopsReturned s = 0)
       \<and> (stopsReturned s = 1 \<longrightarrow> pc s = AtWait \<or> (\<exists>r. pc s = Returned r))
       \<and> (pc s \<noteq> AtSelect \<longrightarrow> step N env SelectExit s = None)
       \<and> (pc s = AtSelect \<and> 0 < stoppers s \<longrightarrow>
             step N env SelectDefault s = None
           \<and> step N env SelectExit s
               = Some (s\<lparr>pc := AtWait, stoppers := stoppers s - 1,
                         stopsReturned := Suc (stopsReturned s)\<rparr>))"
proof -
  from stop_count[OF assms] have "stoppers s + stopsReturned s = count_list sched StopCall"
    by (simp add: init_state_def)
  moreover from stop_inv_reachable[OF assms] have "stopsReturned s \<le> 1"
    "stopsReturned s = 1 \<longrightarrow> pc s = AtWait \<or> (\<exists>r. pc s = Returned r)"
    by (simp_all add: stop_inv_def)
  moreover have "ReadStart \<notin> set sched \<longrightarrow> stopsReturned s = 0"
    using not_started_stays[OF assms] by (simp add: init_state_def)
  moreover have "pc s \<noteq> AtSelect \<longrightarrow> step N env SelectExit s = None"
    by (simp add: step_def)
  moreover have "pc s = AtSelect \<and> 0 < stoppers s \<longrightarrow>
             step N env SelectDefault s = None
           \<and> step N env SelectExit s
               = Some (s\<lparr>pc := AtWait, stoppers := stoppers s - 1,
                         stopsReturned := Suc (stopsReturned s)\<rparr>)"
    by (simp add: step_def)
  ultimately show ?thesis by blast
qed

text \<open>Two calls of \<^verbatim>\<open>Stop\<close>, then \<^verbatim>\<open>Read\<close>: one call returns, the other is still
  blocked when \<^verbatim>\<open>Read\<close> has returned.\<close>

theorem stop_returns_only_through_read_witness:
  "exec 1 ex_target_env ex_stop_schedule init_state = Some ex_stop_state
   \<and> count_list ex_stop_schedule StopCall = 2
   \<and> stoppers ex_stop_state + stopsReturned ex_stop_state = 2
   \<and> stopsReturned ex_stop_state = 1
   \<and> pc ex_stop_state = Returned None
   \<and> step 1 ex_target_env SelectExit ex_stop_state = None"
proof -
  note t = stop_returns_only_through_read[OF ex_stop_run]
  have a: "count_list ex_stop_schedule StopCall = 2" "stopsReturned ex_stop_state = 1"
    "pc ex_stop_state = Returned None"
    by (simp_all add: ex_stop_schedule_def ex_stop_state_def)
  with t have "stoppers ex_stop_state + stopsReturned ex_stop_state = 2"
    "step 1 ex_target_env SelectExit ex_stop_state = None"
    by simp_all
  with ex_stop_run a show ?thesis by simp
qed

text \<open>
  Against claim C3 as stated: a \<^verbatim>\<open>Stop\<close> called before \<^verbatim>\<open>Read\<close> has started has not
  returned and cannot hand its signal over; and of two calls of \<^verbatim>\<open>Stop\<close>, the second
  is still blocked after \<^verbatim>\<open>Read\<close> has returned, in a state where \<^verbatim>\<open>Read\<close> and the
  workers have no step left to take.
\<close>

theorem stop_blocks_without_reader_counterexample:
  "exec 1 ex_target_env [StopCall] init_state = Some (init_state\<lparr>stoppers := 1\<rparr>)
   \<and> stopsReturned (init_state\<lparr>stoppers := 1\<rparr>) = 0
   \<and> step 1 ex_target_env SelectExit (init_state\<lparr>stoppers := 1\<rparr>) = None
   \<and> exec 1 ex_target_env ex_stop_schedule init_state = Some ex_stop_state
   \<and> stoppers ex_stop_state = 1
   \<and> pc ex_stop_state = Returned None
   \<and> workers ex_stop_state = []
   \<and> map (\<lambda>a. step 1 ex_target_env a ex_stop_state)
        [ReadStart, SelectExit, SelectError, SelectDefault, Acquire, Go, Wait]
       = [None, None, None, None, None, None, None]"
  using ex_stop_run
  by (simp add: ex_stop_state_def init_state_def step_def)

end
